theory Spec2Isabelle
  imports Main
begin

section \<open>Strings\<close>

text \<open>
  A JavaScript string is a sequence of UTF-16 code units. A code unit is modelled as a
  natural number (below 65536 in every string that JavaScript can hold; nothing below
  depends on the bound) and a string as the list of its code units; \<open>js\<close> turns a
  literal into such a list. The characters that \<^verbatim>\<open>trim()\<close> removes and that
  \<^verbatim>\<open>\s\<close> matches are TAB, LF, VT, FF, CR, SPACE, NBSP, U+1680, U+2000 to U+200A,
  U+2028, U+2029, U+202F, U+205F, U+3000 and U+FEFF; the line terminators, which
  \<^verbatim>\<open>.\<close> does not match, are LF, CR, U+2028 and U+2029.
\<close>

type_synonym code_unit = nat

type_synonym jsstring = "code_unit list"

definition js :: "string \<Rightarrow> jsstring" where
  "js s = map of_char s"

abbreviation (input) TAB :: code_unit where "TAB \<equiv> 0x09"
abbreviation (input) LF :: code_unit where "LF \<equiv> 0x0A"
abbreviation (input) CR :: code_unit where "CR \<equiv> 0x0D"
abbreviation (input) SP :: code_unit where "SP \<equiv> 0x20"
abbreviation (input) DQ :: code_unit where "DQ \<equiv> 0x22"
abbreviation (input) HASH :: code_unit where "HASH \<equiv> 0x23"
abbreviation (input) DOLLAR :: code_unit where "DOLLAR \<equiv> 0x24"
abbreviation (input) SQ :: code_unit where "SQ \<equiv> 0x27"
abbreviation (input) COLON :: code_unit where "COLON \<equiv> 0x3A"
abbreviation (input) EQ :: code_unit where "EQ \<equiv> 0x3D"
abbreviation (input) BS :: code_unit where "BS \<equiv> 0x5C"
abbreviation (input) US :: code_unit where "US \<equiv> 0x5F"
abbreviation (input) BT :: code_unit where "BT \<equiv> 0x60"
abbreviation (input) LS :: code_unit where "LS \<equiv> 0x2028"
abbreviation (input) PS :: code_unit where "PS \<equiv> 0x2029"

definition is_space :: "code_unit \<Rightarrow> bool" where
  "is_space c \<longleftrightarrow>
     c \<in> set [0x09, 0x0A, 0x0B, 0x0C, 0x0D, 0x20, 0xA0, 0x1680,
              0x2000, 0x2001, 0x2002, 0x2003, 0x2004, 0x2005, 0x2006, 0x2007, 0x2008, 0x2009,
              0x200A, 0x2028, 0x2029, 0x202F, 0x205F, 0x3000, 0xFEFF]"

definition is_line_terminator :: "code_unit \<Rightarrow> bool" where
  "is_line_terminator c \<longleftrightarrow> c \<in> set [LF, CR, LS, PS]"

text \<open>The ranges \<^verbatim>\<open>A-Z\<close>, \<^verbatim>\<open>a-z\<close> and \<^verbatim>\<open>0-9\<close>.\<close>

definition is_upper :: "code_unit \<Rightarrow> bool" where
  "is_upper c \<longleftrightarrow> 0x41 \<le> c \<and> c \<le> 0x5A"

definition is_lower :: "code_unit \<Rightarrow> bool" where
  "is_lower c \<longleftrightarrow> 0x61 \<le> c \<and> c \<le> 0x7A"

definition is_digit :: "code_unit \<Rightarrow> bool" where
  "is_digit c \<longleftrightarrow> 0x30 \<le> c \<and> c \<le> 0x39"

text \<open>\<^verbatim>\<open>s.trim()\<close>\<close>

definition trim :: "jsstring \<Rightarrow> jsstring" where
  "trim s = rev (dropWhile is_space (rev (dropWhile is_space s)))"

text \<open>\<^verbatim>\<open>s.split('\n')\<close>: never empty, the empty string gives one empty line.\<close>

fun split_lines :: "jsstring \<Rightarrow> jsstring list" where
  "split_lines [] = [[]]"
| "split_lines (c # cs) =
     (if c = LF then [] # split_lines cs
      else (case split_lines cs of
              [] \<Rightarrow> [[c]]
            | l # ls \<Rightarrow> (c # l) # ls))"

text \<open>\<^verbatim>\<open>lines.join('\n')\<close>\<close>

fun join_lines :: "jsstring list \<Rightarrow> jsstring" where
  "join_lines [] = []"
| "join_lines [l] = l"
| "join_lines (l # ls) = l @ LF # join_lines ls"

text \<open>\<^verbatim>\<open>s.startsWith(c)\<close> and \<^verbatim>\<open>s.endsWith(c)\<close> for a one-character \<^verbatim>\<open>c\<close>.\<close>

fun startsWith :: "jsstring \<Rightarrow> code_unit \<Rightarrow> bool" where
  "startsWith [] c = False"
| "startsWith (x # xs) c = (x = c)"

definition endsWith :: "jsstring \<Rightarrow> code_unit \<Rightarrow> bool" where
  "endsWith s c = startsWith (rev s) c"

text \<open>
  \<^verbatim>\<open>s.slice(0, -1)\<close> is \<^term>\<open>butlast s\<close>; \<^verbatim>\<open>s.slice(1, -1)\<close> is
  \<^term>\<open>butlast (tl s)\<close>, empty when \<^verbatim>\<open>s\<close> has fewer than two characters.
\<close>

text \<open>The decimal rendering of a line number inside a template literal.\<close>

definition digit_char :: "nat \<Rightarrow> code_unit" where
  "digit_char d = 0x30 + d"

fun show_nat :: "nat \<Rightarrow> jsstring" where
  "show_nat n = (if n < 10 then [digit_char n] else show_nat (n div 10) @ [digit_char (n mod 10)])"

declare show_nat.simps [simp del]

section \<open>Failure\<close>

text \<open>
  None of the functions below has a \<^verbatim>\<open>throw\<close> of its own. What can raise is a
  method call on \<^verbatim>\<open>undefined\<close>: \<^verbatim>\<open>match[1].trim()\<close> is a TypeError when
  the capture group did not take part in the match. A match result is therefore the
  array JavaScript returns (the whole match, then one entry per group, \<^term>\<open>None\<close>
  for \<^verbatim>\<open>undefined\<close>), and reading a group is fallible.
\<close>

datatype js_error = TypeError

type_synonym match_array = "jsstring option list"

definition bindE :: "js_error + 'a \<Rightarrow> ('a \<Rightarrow> js_error + 'b) \<Rightarrow> js_error + 'b" where
  "bindE r f = (case r of Inl e \<Rightarrow> Inl e | Inr x \<Rightarrow> f x)"

text \<open>\<^verbatim>\<open>m[i].trim()\<close>\<close>

definition group_trim :: "match_array \<Rightarrow> nat \<Rightarrow> js_error + jsstring" where
  "group_trim m i =
     (if i < length m then (case m ! i of None \<Rightarrow> Inl TypeError | Some g \<Rightarrow> Inr (trim g))
      else Inl TypeError)"

section \<open>The patterns of constants.ts\<close>

text \<open>\<^verbatim>\<open>COMMENT: /^\s*#/\<close>\<close>

definition COMMENT_test :: "jsstring \<Rightarrow> bool" where
  "COMMENT_test s = startsWith (dropWhile is_space s) HASH"

text \<open>
  \<^verbatim>\<open>ENV_KEY: /^[A-Z_][A-Z0-9_]*$/\<close>, case-sensitive.
\<close>

definition is_key_start :: "code_unit \<Rightarrow> bool" where
  "is_key_start c \<longleftrightarrow> is_upper c \<or> c = US"

definition is_key_char :: "code_unit \<Rightarrow> bool" where
  "is_key_char c \<longleftrightarrow> is_upper c \<or> is_digit c \<or> c = US"

fun ENV_KEY_test :: "jsstring \<Rightarrow> bool" where
  "ENV_KEY_test [] = False"
| "ENV_KEY_test (c # cs) = (is_key_start c \<and> list_all is_key_char cs)"

text \<open>
  \<^verbatim>\<open>ENV_LINE: /^\s*([A-Z_][A-Z0-9_]*)=(.*)$/i\<close>. With the \<^verbatim>\<open>i\<close> flag the
  classes also match the lower-case letters. The key class contains neither white space
  nor \<^verbatim>\<open>=\<close>, so the match is the longest run of key characters, which must start
  with a letter or an underscore and be followed by \<^verbatim>\<open>=\<close>; \<^verbatim>\<open>.\<close> does not
  match a line terminator and \<^verbatim>\<open>$\<close> is the end of the input.
\<close>

definition is_key_start_i :: "code_unit \<Rightarrow> bool" where
  "is_key_start_i c \<longleftrightarrow> is_upper c \<or> is_lower c \<or> c = US"

definition is_key_char_i :: "code_unit \<Rightarrow> bool" where
  "is_key_char_i c \<longleftrightarrow> is_upper c \<or> is_lower c \<or> is_digit c \<or> c = US"

definition ENV_LINE_match :: "jsstring \<Rightarrow> match_array option" where
  "ENV_LINE_match s =
     (let s1 = dropWhile is_space s;
          key = takeWhile is_key_char_i s1;
          rest = dropWhile is_key_char_i s1
      in if (case key of [] \<Rightarrow> False | c # _ \<Rightarrow> is_key_start_i c)
            \<and> startsWith rest EQ
            \<and> list_all (\<lambda>c. \<not> is_line_terminator c) (tl rest)
         then Some [Some s, Some key, Some (tl rest)]
         else None)"

text \<open>
  The export pattern \<^verbatim>\<open>/^\s*export\s+([^=]+)=(.*)$/i\<close>. After the keyword,
  \<^verbatim>\<open>\s+\<close> takes the whole run of white space and \<^verbatim>\<open>[^=]+\<close> everything up
  to the first \<^verbatim>\<open>=\<close>. When \<^verbatim>\<open>=\<close> follows the white space directly, the
  matcher backtracks: \<^verbatim>\<open>\s+\<close> gives its last character to the group, which needs
  a run of at least two.
\<close>

definition is_export_keyword :: "jsstring \<Rightarrow> bool" where
  "is_export_keyword w \<longleftrightarrow>
     list_all2 (\<lambda>c p. c = fst p \<or> c = snd p) w
       (zip (js ''export'') (js ''EXPORT''))"

definition EXPORT_match :: "jsstring \<Rightarrow> match_array option" where
  "EXPORT_match s =
     (let s1 = dropWhile is_space s;
          ws = takeWhile is_space (drop 6 s1);
          s2 = dropWhile is_space (drop 6 s1);
          name = takeWhile (\<lambda>c. c \<noteq> EQ) s2;
          rest = dropWhile (\<lambda>c. c \<noteq> EQ) s2
      in if is_export_keyword (take 6 s1) \<and> ws \<noteq> []
            \<and> (if name = [] then 2 \<le> length ws else True)
            \<and> startsWith rest EQ
            \<and> list_all (\<lambda>c. \<not> is_line_terminator c) (tl rest)
         then Some [Some s, Some (if name = [] then [last ws] else name), Some (tl rest)]
         else None)"

section \<open>Environment objects\<close>

text \<open>
  An \<^verbatim>\<open>EnvObject\<close> is a plain JavaScript object created by \<^verbatim>\<open>{}\<close>: its own
  properties, in creation order, and \<^verbatim>\<open>Object.prototype\<close> behind them. The
  inherited names are those of ECMAScript (with Annex B); all are data properties
  except the accessor \<^verbatim>\<open>__proto__\<close>.
\<close>

type_synonym EnvObject = "(jsstring \<times> jsstring) list"

definition Object_prototype_names :: "jsstring list" where
  "Object_prototype_names =
     [js ''constructor'', js ''hasOwnProperty'', js ''isPrototypeOf'', js ''propertyIsEnumerable'',
      js ''toLocaleString'', js ''toString'', js ''valueOf'', js ''__proto__'',
      js ''__defineGetter__'', js ''__defineSetter__'', js ''__lookupGetter__'', js ''__lookupSetter__'']"

text \<open>Defining an own property: an existing one keeps its place, a new one goes last.\<close>

fun define_own :: "jsstring \<Rightarrow> jsstring \<Rightarrow> EnvObject \<Rightarrow> EnvObject" where
  "define_own k v [] = [(k, v)]"
| "define_own k v (p # ps) = (if fst p = k then (k, v) # ps else p # define_own k v ps)"

text \<open>
  \<^verbatim>\<open>obj[key] = value\<close> with a string value. An own property is overwritten.
  Otherwise the name \<^verbatim>\<open>__proto__\<close> reaches the inherited setter, which ignores a
  value that is not an object, and any other name becomes a new own property.
\<close>

definition set_prop :: "EnvObject \<Rightarrow> jsstring \<Rightarrow> jsstring \<Rightarrow> EnvObject" where
  "set_prop obj key v =
     (if key \<in> set (map fst obj) then define_own key v obj
      else if key = js ''__proto__'' then obj
      else define_own key v obj)"

text \<open>
  \<^verbatim>\<open>obj[key]\<close>: the own string, an inherited member of \<^verbatim>\<open>Object.prototype\<close>
  (the same object for every \<^verbatim>\<open>EnvObject\<close>), or \<^verbatim>\<open>undefined\<close>.
\<close>

datatype js_value = JString jsstring | JInherited jsstring | JUndefined

definition get_prop :: "EnvObject \<Rightarrow> jsstring \<Rightarrow> js_value" where
  "get_prop obj key =
     (case map_of obj key of
        Some v \<Rightarrow> JString v
      | None \<Rightarrow> if key \<in> set Object_prototype_names then JInherited key else JUndefined)"

text \<open>\<^verbatim>\<open>key in obj\<close> follows the prototype chain.\<close>

definition has_property :: "jsstring \<Rightarrow> EnvObject \<Rightarrow> bool" where
  "has_property key obj \<longleftrightarrow> key \<in> set (map fst obj) \<or> key \<in> set Object_prototype_names"

text \<open>
  \<^verbatim>\<open>Object.entries\<close> and \<^verbatim>\<open>Object.keys\<close> list the own properties: first the
  array indices (canonical decimal numbers below \<open>2\<^sup>3\<^sup>2 - 1\<close>) in ascending order,
  then the other names in creation order.
\<close>

definition digit_value :: "code_unit \<Rightarrow> nat" where
  "digit_value c = c - 0x30"

definition parse_nat :: "jsstring \<Rightarrow> nat" where
  "parse_nat s = foldl (\<lambda>n c. 10 * n + digit_value c) 0 s"

definition is_array_index :: "jsstring \<Rightarrow> bool" where
  "is_array_index s \<longleftrightarrow>
     s \<noteq> [] \<and> list_all is_digit s \<and> (if startsWith s 0x30 then s = js ''0'' else True)
     \<and> parse_nat s < 4294967295"

definition Object_entries :: "EnvObject \<Rightarrow> (jsstring \<times> jsstring) list" where
  "Object_entries obj =
     sort_key (\<lambda>p. parse_nat (fst p)) (filter (\<lambda>p. is_array_index (fst p)) obj)
     @ filter (\<lambda>p. \<not> is_array_index (fst p)) obj"

definition Object_keys :: "EnvObject \<Rightarrow> jsstring list" where
  "Object_keys obj = map fst (Object_entries obj)"

text \<open>\<^verbatim>\<open>{ ...a, ...b }\<close>: a fresh object receiving the own properties of each operand.\<close>

definition spread :: "EnvObject list \<Rightarrow> EnvObject" where
  "spread objs = foldl (\<lambda>acc obj. foldl (\<lambda>r p. define_own (fst p) (snd p) r) acc (Object_entries obj)) [] objs"

section \<open>envParser.ts: the lenient parser\<close>

text \<open>\<^verbatim>\<open>processValue\<close>\<close>

definition processValue :: "jsstring \<Rightarrow> jsstring" where
  "processValue v =
     (if (startsWith v DQ \<and> endsWith v DQ) \<or> (startsWith v SQ \<and> endsWith v SQ)
      then butlast (tl v)
      else v)"

text \<open>The variables of the loop in \<^verbatim>\<open>parseEnvContent\<close>.\<close>

record parse_state =
  env :: EnvObject
  currentKey :: "jsstring option"
  currentValue :: jsstring

text \<open>One iteration of the loop, for the line \<^verbatim>\<open>lines[i]\<close>.\<close>

definition parse_step :: "jsstring \<Rightarrow> parse_state \<Rightarrow> js_error + parse_state" where
  "parse_step line st =
     (case currentKey st of
        Some ck \<Rightarrow>
          if endsWith line BS
          then Inr (st\<lparr>currentValue := currentValue st @ butlast line @ [LF]\<rparr>)
          else Inr \<lparr>env = set_prop (env st) ck (processValue (currentValue st @ line)),
                    currentKey = None, currentValue = []\<rparr>
      | None \<Rightarrow>
          let trimmed = trim line in
          if trimmed = [] then Inr st
          else if COMMENT_test trimmed then Inr st
          else (case ENV_LINE_match trimmed of
                  None \<Rightarrow> Inr st
                | Some m \<Rightarrow>
                    bindE (group_trim m 1) (\<lambda>key.
                    bindE (group_trim m 2) (\<lambda>v.
                      case EXPORT_match trimmed of
                        Some em \<Rightarrow>
                          bindE (group_trim em 1) (\<lambda>exportKey.
                          bindE (group_trim em 2) (\<lambda>ev.
                            Inr (st\<lparr>env := set_prop (env st) exportKey (processValue ev)\<rparr>)))
                      | None \<Rightarrow>
                          if endsWith v BS
                          then Inr (st\<lparr>currentKey := Some key, currentValue := butlast v\<rparr>)
                          else Inr (st\<lparr>env := set_prop (env st) key (processValue v)\<rparr>)))))"

fun parse_loop :: "jsstring list \<Rightarrow> parse_state \<Rightarrow> js_error + parse_state" where
  "parse_loop [] st = Inr st"
| "parse_loop (line # rest) st = bindE (parse_step line st) (parse_loop rest)"

definition parseEnvContent :: "jsstring \<Rightarrow> js_error + EnvObject" where
  "parseEnvContent content =
     bindE (parse_loop (split_lines content) \<lparr>env = [], currentKey = None, currentValue = []\<rparr>)
       (\<lambda>st. case currentKey st of
               Some ck \<Rightarrow> Inr (set_prop (env st) ck (processValue (currentValue st)))
             | None \<Rightarrow> Inr (env st))"

section \<open>envParser.ts: the validator\<close>

text \<open>\<^verbatim>\<open>isQuoted\<close>\<close>

definition isQuoted :: "jsstring \<Rightarrow> bool" where
  "isQuoted v \<longleftrightarrow> (startsWith v DQ \<and> endsWith v DQ) \<or> (startsWith v SQ \<and> endsWith v SQ)"

text \<open>The messages, as the template literals build them.\<close>

definition msg_invalid_syntax :: "nat \<Rightarrow> jsstring" where
  "msg_invalid_syntax lineNum =
     js ''Line '' @ show_nat lineNum @ js '': Invalid syntax - expected KEY=VALUE format''"

definition msg_empty_key :: "nat \<Rightarrow> jsstring" where
  "msg_empty_key lineNum = js ''Line '' @ show_nat lineNum @ js '': Empty key''"

definition msg_invalid_key :: "nat \<Rightarrow> jsstring \<Rightarrow> jsstring" where
  "msg_invalid_key lineNum key =
     js ''Line '' @ show_nat lineNum @ js '': Invalid key '' @ [DQ] @ key @ [DQ]
       @ js '' - use uppercase letters, numbers, and underscores''"

definition msg_duplicate_key :: "nat \<Rightarrow> jsstring \<Rightarrow> jsstring" where
  "msg_duplicate_key lineNum key =
     js ''Line '' @ show_nat lineNum @ js '': Duplicate key '' @ [DQ] @ key @ [DQ]"

definition msg_unquoted_value :: "nat \<Rightarrow> jsstring \<Rightarrow> jsstring \<Rightarrow> jsstring" where
  "msg_unquoted_value lineNum key v =
     js ''Line '' @ show_nat lineNum @ js '': Unquoted value with spaces - consider quoting: ''
       @ key @ js ''='' @ [DQ] @ v @ [DQ]"

text \<open>
  \<^verbatim>\<open>validateKey\<close> mutates the set of seen keys and the error array; the model
  returns both.
\<close>

type_synonym validate_state = "jsstring set \<times> jsstring list"

definition validateKey :: "jsstring \<Rightarrow> nat \<Rightarrow> validate_state \<Rightarrow> validate_state" where
  "validateKey key lineNum st =
     (if key = [] then (fst st, snd st @ [msg_empty_key lineNum])
      else if \<not> ENV_KEY_test key then (fst st, snd st @ [msg_invalid_key lineNum key])
      else if key \<in> fst st then (fst st, snd st @ [msg_duplicate_key lineNum key])
      else (insert key (fst st), snd st))"

text \<open>
  One iteration of the loop in \<^verbatim>\<open>validateEnvContent\<close>. The source also reassigns
  \<^verbatim>\<open>line\<close> when it ends with a backslash, but never reads it again: every match
  is made on \<^verbatim>\<open>trimmed\<close>, which was computed before.
\<close>

definition validate_step :: "nat \<Rightarrow> jsstring \<Rightarrow> validate_state \<Rightarrow> js_error + validate_state" where
  "validate_step lineNum line st =
     (let trimmed = trim line in
      if trimmed = [] \<or> COMMENT_test trimmed then Inr st
      else (case ENV_LINE_match trimmed of
              None \<Rightarrow>
                (case EXPORT_match trimmed of
                   None \<Rightarrow> Inr (fst st, snd st @ [msg_invalid_syntax lineNum])
                 | Some em \<Rightarrow>
                     bindE (group_trim em 1) (\<lambda>key. Inr (validateKey key lineNum st)))
            | Some m \<Rightarrow>
                bindE (group_trim m 1) (\<lambda>key.
                bindE (group_trim m 2) (\<lambda>v.
                  let st1 = validateKey key lineNum st in
                  if v \<noteq> [] \<and> \<not> isQuoted v \<and> list_ex is_space v
                  then Inr (fst st1, snd st1 @ [msg_unquoted_value lineNum key v])
                  else Inr st1))))"

text \<open>The loop itself: \<^verbatim>\<open>i\<close> is the index of the first remaining line.\<close>

fun validate_loop :: "nat \<Rightarrow> jsstring list \<Rightarrow> validate_state \<Rightarrow> js_error + validate_state" where
  "validate_loop i [] st = Inr st"
| "validate_loop i (line # rest) st =
     bindE (validate_step (i + 1) line st) (validate_loop (i + 1) rest)"

definition validateEnvContent :: "jsstring \<Rightarrow> js_error + jsstring list" where
  "validateEnvContent content =
     bindE (validate_loop 0 (split_lines content) ({}, [])) (\<lambda>st. Inr (snd st))"

section \<open>envParser.ts: serialising and comparing\<close>

text \<open>\<^verbatim>\<open>shouldQuoteValue\<close>: \<^verbatim>\<open>/[\s='"$`\\\n]/\<close>\<close>

definition shouldQuoteValue :: "jsstring \<Rightarrow> bool" where
  "shouldQuoteValue v \<longleftrightarrow>
     list_ex (\<lambda>c. is_space c \<or> c \<in> set [EQ, SQ, DQ, DOLLAR, BT, BS, LF]) v"

definition stringifyEnv :: "EnvObject \<Rightarrow> jsstring" where
  "stringifyEnv obj =
     join_lines (map (\<lambda>p. fst p @ js ''='' @ (if shouldQuoteValue (snd p) then [DQ] @ snd p @ [DQ]
                                             else snd p))
                  (Object_entries obj))"

text \<open>\<^verbatim>\<open>mergeEnv\<close>: \<^verbatim>\<open>envs.reduce((acc, env) => ({ ...acc, ...env }), {})\<close>\<close>

definition mergeEnv :: "EnvObject list \<Rightarrow> EnvObject" where
  "mergeEnv envs = foldl (\<lambda>acc e. spread [acc, e]) [] envs"

definition getMissingKeys :: "EnvObject \<Rightarrow> EnvObject \<Rightarrow> jsstring list" where
  "getMissingKeys target source = filter (\<lambda>key. \<not> has_property key target) (Object_keys source)"

definition getExtraKeys :: "EnvObject \<Rightarrow> EnvObject \<Rightarrow> jsstring list" where
  "getExtraKeys target source = filter (\<lambda>key. \<not> has_property key source) (Object_keys target)"

text \<open>
  \<^verbatim>\<open>Array.from(new Set(xs))\<close>: the distinct elements, each at its first occurrence.
\<close>

definition Set_from :: "'a list \<Rightarrow> 'a list" where
  "Set_from xs = foldl (\<lambda>acc x. if x \<in> set acc then acc else acc @ [x]) [] xs"

definition getDifferentKeys :: "EnvObject \<Rightarrow> EnvObject \<Rightarrow> jsstring list" where
  "getDifferentKeys env1 env2 =
     filter (\<lambda>key. get_prop env1 key \<noteq> get_prop env2 key)
       (Set_from (Object_keys env1 @ Object_keys env2))"

section \<open>sync.ts: the preserve strategy\<close>

text \<open>
  The \<^verbatim>\<open>preserve\<close> branch of \<^verbatim>\<open>syncCommand\<close>: a copy of the target, then
  an assignment for every key that \<^verbatim>\<open>getMissingKeys\<close> reports. Those keys come
  from \<^verbatim>\<open>Object.keys(sourceObject)\<close>, so \<^verbatim>\<open>sourceObject[key]\<close> is an own
  string there.
\<close>

definition sync_preserve :: "EnvObject \<Rightarrow> EnvObject \<Rightarrow> EnvObject" where
  "sync_preserve sourceObject targetObject =
     foldl (\<lambda>mergedObject key.
              case get_prop sourceObject key of
                JString v \<Rightarrow> set_prop mergedObject key v
              | JInherited n \<Rightarrow> mergedObject
              | JUndefined \<Rightarrow> mergedObject)
       (spread [targetObject]) (getMissingKeys targetObject sourceObject)"

section \<open>lint.ts: the issues of lintCommand\<close>

datatype severity = SeverityError | SeverityWarning

record issue =
  line :: nat
  message :: jsstring
  severity :: severity

text \<open>
  \<^verbatim>\<open>error.match(/^Line (\d+):/)\<close>, giving the digits of the group, and
  \<^verbatim>\<open>error.replace(/^Line \d+: /, '')\<close>.
\<close>

definition Line_prefix_digits :: "jsstring \<Rightarrow> jsstring option" where
  "Line_prefix_digits s =
     (if take 5 s = js ''Line '' \<and> takeWhile is_digit (drop 5 s) \<noteq> []
         \<and> startsWith (dropWhile is_digit (drop 5 s)) COLON
      then Some (takeWhile is_digit (drop 5 s))
      else None)"

definition strip_Line_prefix :: "jsstring \<Rightarrow> jsstring" where
  "strip_Line_prefix s =
     (if take 5 s = js ''Line '' \<and> takeWhile is_digit (drop 5 s) \<noteq> []
         \<and> take 2 (dropWhile is_digit (drop 5 s)) = js '': ''
      then drop 2 (dropWhile is_digit (drop 5 s))
      else s)"

text \<open>
  Every message of the validation pass becomes an issue of severity
  \<^verbatim>\<open>'error'\<close>; \<^verbatim>\<open>parseInt\<close> reads the decimal digits back.
\<close>

definition validation_issue :: "jsstring \<Rightarrow> issue" where
  "validation_issue err =
     \<lparr>line = (case Line_prefix_digits err of Some ds \<Rightarrow> parse_nat ds | None \<Rightarrow> 0),
      message = strip_Line_prefix err,
      severity = SeverityError\<rparr>"

text \<open>
  The additional check \<^verbatim>\<open>/^[A-Z_][A-Z0-9_]*\s*=\s*([^"'`].* .*)/\<close> on the raw
  line. After \<^verbatim>\<open>=\<close>, the group starts at any character of the leading white
  space or right after it, with a character that is no quote, followed on the same line
  by a space.
\<close>

fun lint_value_test :: "jsstring \<Rightarrow> bool" where
  "lint_value_test [] = False"
| "lint_value_test (c # cs) =
     ((c \<notin> set [DQ, SQ, BT] \<and> SP \<in> set (takeWhile (\<lambda>d. \<not> is_line_terminator d) cs))
      \<or> (is_space c \<and> lint_value_test cs))"

definition lint_unquoted_test :: "jsstring \<Rightarrow> bool" where
  "lint_unquoted_test l =
     (let key = takeWhile is_key_char l;
          r1 = dropWhile is_space (dropWhile is_key_char l)
      in (case key of [] \<Rightarrow> False | c # _ \<Rightarrow> is_key_start c)
         \<and> startsWith r1 EQ \<and> lint_value_test (tl r1))"

definition additional_issues :: "nat \<Rightarrow> jsstring \<Rightarrow> issue list" where
  "additional_issues lineNum l =
     (if trim l = [] \<and> 0 < length l
      then [\<lparr>line = lineNum, message = js ''Line contains only whitespace'',
             severity = SeverityWarning\<rparr>]
      else [])
     @ (if lint_unquoted_test l \<and> HASH \<notin> set l
        then [\<lparr>line = lineNum, message = js ''Value with spaces should be quoted'',
               severity = SeverityWarning\<rparr>]
        else [])"

fun additional_loop :: "nat \<Rightarrow> jsstring list \<Rightarrow> issue list" where
  "additional_loop i [] = []"
| "additional_loop i (l # ls) = additional_issues (i + 1) l @ additional_loop (i + 1) ls"

definition lint_issues :: "jsstring \<Rightarrow> js_error + issue list" where
  "lint_issues content =
     bindE (validateEnvContent content) (\<lambda>validationErrors.
     bindE (parseEnvContent content) (\<lambda>parseResult.
       Inr (map validation_issue validationErrors
            @ additional_loop 0 (split_lines content))))"

section \<open>Notions used in the statements\<close>

text \<open>
  The five messages share one shape: the line number, then the text that
  \<^verbatim>\<open>lintCommand\<close> keeps as the message of the issue.
\<close>

definition line_msg :: "nat \<Rightarrow> jsstring \<Rightarrow> jsstring" where
  "line_msg lineNum body = js ''Line '' @ show_nat lineNum @ js '': '' @ body"

text \<open>
  The key that the validation pass checks on a line, if any: the first group of
  \<^verbatim>\<open>ENV_LINE\<close> or, failing that, of the export pattern, trimmed. Blank lines and
  comments have none.
\<close>

definition line_key :: "jsstring \<Rightarrow> jsstring option" where
  "line_key l =
     (let trimmed = trim l in
      if trimmed = [] \<or> COMMENT_test trimmed then None
      else (case ENV_LINE_match trimmed of
              Some m \<Rightarrow> (case group_trim m 1 of Inr key \<Rightarrow> Some key | Inl e \<Rightarrow> None)
            | None \<Rightarrow>
                (case EXPORT_match trimmed of
                   Some em \<Rightarrow> (case group_trim em 1 of Inr key \<Rightarrow> Some key | Inl e \<Rightarrow> None)
                 | None \<Rightarrow> None)))"

text \<open>
  The key and the value that both passes read from a \<^verbatim>\<open>KEY=VALUE\<close> line, that is
  a line whose trimmed text matches \<^verbatim>\<open>ENV_LINE\<close>.
\<close>

definition env_line_parts :: "jsstring \<Rightarrow> (jsstring \<times> jsstring) option" where
  "env_line_parts l =
     (case ENV_LINE_match (trim l) of
        None \<Rightarrow> None
      | Some m \<Rightarrow>
          (case group_trim m 1 of
             Inl e \<Rightarrow> None
           | Inr key \<Rightarrow> (case group_trim m 2 of Inl e \<Rightarrow> None | Inr v \<Rightarrow> Some (key, v))))"

text \<open>
  The keys that the parser can record: \<^verbatim>\<open>^[A-Za-z_][A-Za-z0-9_]*$\<close>, the first
  group of \<^verbatim>\<open>ENV_LINE\<close>.
\<close>

fun ENV_LINE_key_test :: "jsstring \<Rightarrow> bool" where
  "ENV_LINE_key_test [] = False"
| "ENV_LINE_key_test (c # cs) = (is_key_start_i c \<and> list_all is_key_char_i cs)"



text \<open>
  The keys in play after some lines: those of the mapping and the key of an open
  continuation.
\<close>

definition keys_in_play :: "parse_state \<Rightarrow> jsstring set" where
  "keys_in_play st = set (map fst (env st)) \<union> set_option (currentKey st)"

text \<open>What one line adds: messages tagged with its number, and at most its own key.\<close>

definition step_ok :: "nat \<Rightarrow> jsstring \<Rightarrow> validate_state \<Rightarrow> validate_state \<Rightarrow> jsstring list \<Rightarrow> bool" where
  "step_ok n l st st' new \<longleftrightarrow>
     snd st' = snd st @ new \<and> (\<forall>e\<in>set new. \<exists>body. e = line_msg n body)
     \<and> fst st \<subseteq> fst st' \<and> (\<forall>k\<in>fst st' - fst st. line_key l = Some k)"


text \<open>The same for a run of lines starting at index \<open>i\<close>.\<close>

definition loop_ok :: "nat \<Rightarrow> jsstring list \<Rightarrow> validate_state \<Rightarrow> validate_state \<Rightarrow> jsstring list \<Rightarrow> bool" where
  "loop_ok i ls st st' new \<longleftrightarrow>
     snd st' = snd st @ new
     \<and> (\<forall>e\<in>set new. \<exists>n body. e = line_msg n body \<and> i < n \<and> n \<le> i + length ls)
     \<and> fst st \<subseteq> fst st' \<and> (\<forall>k\<in>fst st' - fst st. \<exists>m<length ls. line_key (ls ! m) = Some k)"

section \<open>Unfolding for evaluation\<close>

lemmas char_class_defs = is_space_def is_line_terminator_def is_upper_def is_lower_def
  is_digit_def is_key_start_def is_key_char_def is_key_start_i_def is_key_char_i_def

lemmas object_defs = Object_entries_def Object_keys_def is_array_index_def parse_nat_def
  digit_value_def has_property_def get_prop_def Object_prototype_names_def set_prop_def
  spread_def

lemmas parser_defs = parseEnvContent_def parse_step_def bindE_def trim_def COMMENT_test_def
  ENV_LINE_match_def EXPORT_match_def group_trim_def endsWith_def processValue_def
  is_export_keyword_def

lemma js_Nil [simp]: "js [] = []"
  by (simp add: js_def)

lemma js_Cons [simp]: "js (c # cs) = of_char c # js cs"
  by (simp add: js_def)

lemma code_unit_bytes:
  "b < 256 \<Longrightarrow> (c div 256 = a \<and> c mod 256 = b) = (c = a * 256 + (b::nat))"
  by auto

lemma is_space_code [code]:
  "is_space c =
     (if c < 256 then c \<in> set [9, 10, 11, 12, 13, 32, 160]
      else (c div 256 = 22 \<and> c mod 256 = 128)
         \<or> (c div 256 = 32 \<and> c mod 256 \<in> set [0, 1, 2, 3, 4, 5, 6, 7, 8, 9, 10, 40, 41, 47, 95])
         \<or> (c div 256 = 48 \<and> c mod 256 = 0)
         \<or> (c div 256 = 254 \<and> c mod 256 = 255))"
  unfolding is_space_def by (simp add: code_unit_bytes conj_disj_distribL)

lemma is_line_terminator_code [code]:
  "is_line_terminator c =
     (if c < 256 then c \<in> set [10, 13]
      else c div 256 = 32 \<and> c mod 256 \<in> set [40, 41])"
  unfolding is_line_terminator_def by (simp add: code_unit_bytes conj_disj_distribL)

section \<open>Multiline continuation\<close>

text \<open>
  C2. The claim: a value ending in a backslash is continued on the next lines, each
  joined with an inserted newline, so that \<^verbatim>\<open>KEY=line1\\<close> followed by
  \<^verbatim>\<open>line2\<close> parses to the value \<^verbatim>\<open>line1\<close>, newline, \<^verbatim>\<open>line2\<close>.
  The code opens the continuation with the first value cut before its backslash and adds
  no separator there; a newline is only appended after a continuation line that itself
  ends with a backslash. On the claim's own input the result is \<^verbatim>\<open>line1line2\<close>.
\<close>

theorem parse_continuation_first_line_no_separator:
  "parseEnvContent (js ''KEY=line1'' @ [BS, LF] @ js ''line2'') = Inr [(js ''KEY'', js ''line1line2'')]"
  by code_simp

section \<open>Matches and results\<close>

lemma bindE_Inr [simp]: "bindE (Inr x) f = f x"
  by (simp add: bindE_def)

lemma bindE_Inl [simp]: "bindE (Inl e) f = Inl e"
  by (simp add: bindE_def)

lemma bindE_eq_Inr: "bindE r f = Inr y \<longleftrightarrow> (\<exists>x. r = Inr x \<and> f x = Inr y)"
  by (cases r) simp_all

lemma ENV_LINE_match_SomeD:
  assumes "ENV_LINE_match s = Some m"
  obtains key v where "m = [Some s, Some key, Some v]"
    and "dropWhile is_space s = key @ EQ # v"
    and "key \<noteq> []" and "is_key_start_i (hd key)" and "list_all is_key_char_i key"
    and "list_all (\<lambda>c. \<not> is_line_terminator c) v"
proof -
  let ?s1 = "dropWhile is_space s"
  let ?key = "takeWhile is_key_char_i ?s1"
  let ?rest = "dropWhile is_key_char_i ?s1"
  from assms have m: "m = [Some s, Some ?key, Some (tl ?rest)]"
    and k: "(case ?key of [] \<Rightarrow> False | c # _ \<Rightarrow> is_key_start_i c)"
    and r: "startsWith ?rest EQ"
    and v: "list_all (\<lambda>c. \<not> is_line_terminator c) (tl ?rest)"
    by (auto simp: ENV_LINE_match_def Let_def split: if_splits)
  from r have rest: "?rest = EQ # tl ?rest"
    by (cases ?rest) auto
  have "?s1 = ?key @ ?rest" by simp
  with rest have d: "?s1 = ?key @ EQ # tl ?rest" by simp
  from k have ne: "?key \<noteq> []" and st: "is_key_start_i (hd ?key)"
    by (auto split: list.splits)
  have al: "list_all is_key_char_i ?key"
    by (simp add: list_all_iff) (meson set_takeWhileD)
  from m d ne st al v show thesis by (rule that)
qed

lemma EXPORT_match_SomeD:
  assumes "EXPORT_match s = Some m"
  obtains g1 g2 where "m = [Some s, Some g1, Some g2]"
  using assms by (auto simp: EXPORT_match_def Let_def split: if_splits)

lemma group_trim_simps [simp]:
  "group_trim [Some a, Some b, Some c] 1 = Inr (trim b)"
  "group_trim [Some a, Some b, Some c] (Suc 0) = Inr (trim b)"
  "group_trim [Some a, Some b, Some c] 2 = Inr (trim c)"
  by (simp_all add: group_trim_def)

lemma parse_step_returns: "\<exists>st'. parse_step l st = Inr st'"
proof (cases "currentKey st")
  case (Some ck)
  then show ?thesis by (simp add: parse_step_def)
next
  case None
  show ?thesis
  proof (cases "ENV_LINE_match (trim l)")
    case N: None
    with None show ?thesis by (simp add: parse_step_def Let_def)
  next
    case (Some m)
    then obtain key v where m: "m = [Some (trim l), Some key, Some v]"
      by (rule ENV_LINE_match_SomeD)
    show ?thesis
    proof (cases "EXPORT_match (trim l)")
      case N: None
      with None Some m show ?thesis by (simp add: parse_step_def Let_def)
    next
      case S: (Some em)
      then obtain g1 g2 where "em = [Some (trim l), Some g1, Some g2]"
        by (rule EXPORT_match_SomeD)
      with None Some m S show ?thesis by (simp add: parse_step_def Let_def)
    qed
  qed
qed

lemma parse_loop_returns: "\<exists>st'. parse_loop ls st = Inr st'"
proof (induction ls arbitrary: st)
  case Nil
  show ?case by simp
next
  case (Cons l ls)
  obtain st1 where "parse_step l st = Inr st1" using parse_step_returns by blast
  with Cons show ?case by simp
qed

lemma validate_step_returns: "\<exists>st'. validate_step n l st = Inr st'"
proof (cases "ENV_LINE_match (trim l)")
  case None
  show ?thesis
  proof (cases "EXPORT_match (trim l)")
    case N: None
    with None show ?thesis by (simp add: validate_step_def Let_def)
  next
    case (Some em)
    then obtain g1 g2 where "em = [Some (trim l), Some g1, Some g2]"
      by (rule EXPORT_match_SomeD)
    with None Some show ?thesis by (simp add: validate_step_def Let_def)
  qed
next
  case (Some m)
  then obtain key v where m: "m = [Some (trim l), Some key, Some v]"
    by (rule ENV_LINE_match_SomeD)
  with Some show ?thesis by (simp add: validate_step_def Let_def)
qed

lemma validate_loop_returns: "\<exists>st'. validate_loop i ls st = Inr st'"
proof (induction ls arbitrary: i st)
  case Nil
  show ?case by simp
next
  case (Cons l ls)
  obtain st1 where "validate_step (i + 1) l st = Inr st1" using validate_step_returns by blast
  with Cons show ?case by simp
qed

lemma validateEnvContent_returns: "\<exists>errors. validateEnvContent content = Inr errors"
proof -
  obtain st where "validate_loop 0 (split_lines content) ({}, []) = Inr st"
    using validate_loop_returns by blast
  then show ?thesis by (simp add: validateEnvContent_def)
qed

lemma parseEnvContent_returns: "\<exists>env. parseEnvContent content = Inr env"
proof -
  obtain st where
    "parse_loop (split_lines content) \<lparr>env = [], currentKey = None, currentValue = []\<rparr> = Inr st"
    using parse_loop_returns by blast
  then show ?thesis
    by (cases "currentKey st") (simp_all add: parseEnvContent_def)
qed

section \<open>The validation pass\<close>

subsection \<open>Decimal digits\<close>

lemma digit_table:
  "\<forall>d \<in> set [0..<10]. is_digit (digit_char d) \<and> digit_value (digit_char d) = d"
  by code_simp

lemma digit_char_props:
  assumes "d < 10"
  shows "is_digit (digit_char d)" and "digit_value (digit_char d) = d"
  using digit_table assms by auto

lemma parse_nat_snoc: "parse_nat (ds @ [c]) = 10 * parse_nat ds + digit_value c"
  by (simp add: parse_nat_def)

lemma show_nat_digits: "list_all is_digit (show_nat n)"
proof (induction n rule: show_nat.induct)
  case (1 n)
  show ?case
  proof (cases "n < 10")
    case True
    then show ?thesis by (simp add: show_nat.simps [of n] digit_char_props)
  next
    case False
    with 1 show ?thesis by (simp add: show_nat.simps [of n] digit_char_props)
  qed
qed

lemma show_nat_nonempty: "show_nat n \<noteq> []"
  by (subst show_nat.simps) simp

lemma parse_nat_show_nat: "parse_nat (show_nat n) = n"
proof (induction n rule: show_nat.induct)
  case (1 n)
  show ?case
  proof (cases "n < 10")
    case True
    then show ?thesis
      by (simp add: show_nat.simps [of n] parse_nat_def digit_char_props)
  next
    case False
    with 1 have "parse_nat (show_nat (n div 10)) = n div 10" by simp
    with False show ?thesis
      by (simp add: show_nat.simps [of n] parse_nat_snoc digit_char_props)
  qed
qed

lemma takeWhile_digits_colon:
  assumes "list_all is_digit ds"
  shows "takeWhile is_digit (ds @ COLON # r) = ds"
    and "dropWhile is_digit (ds @ COLON # r) = COLON # r"
proof -
  have c: "\<not> is_digit COLON" by (simp add: is_digit_def)
  from assms have "\<forall>x\<in>set ds. is_digit x" by (simp add: list_all_iff)
  with c show "takeWhile is_digit (ds @ COLON # r) = ds"
    and "dropWhile is_digit (ds @ COLON # r) = COLON # r"
    by (simp_all add: takeWhile_append2 dropWhile_append2)
qed

subsection \<open>The shape of the messages\<close>

lemma Line_prefix_digits_line_msg: "Line_prefix_digits (line_msg n body) = Some (show_nat n)"
  by (simp add: Line_prefix_digits_def line_msg_def takeWhile_digits_colon show_nat_digits
      show_nat_nonempty)

lemma strip_Line_prefix_line_msg: "strip_Line_prefix (line_msg n body) = body"
  by (simp add: strip_Line_prefix_def line_msg_def takeWhile_digits_colon show_nat_digits
      show_nat_nonempty)

lemma validation_issue_line_msg [simp]:
  "validation_issue (line_msg n body) = \<lparr>line = n, message = body, severity = SeverityError\<rparr>"
  by (simp add: validation_issue_def Line_prefix_digits_line_msg strip_Line_prefix_line_msg
      parse_nat_show_nat)

lemma line_msg_inject [simp]: "line_msg a b1 = line_msg b b2 \<longleftrightarrow> a = b \<and> b1 = b2"
proof
  assume "line_msg a b1 = line_msg b b2"
  then have "validation_issue (line_msg a b1) = validation_issue (line_msg b b2)" by simp
  then show "a = b \<and> b1 = b2" by simp
qed simp

lemma msg_line_msg:
  "msg_invalid_syntax n = line_msg n (js ''Invalid syntax - expected KEY=VALUE format'')"
  "msg_empty_key n = line_msg n (js ''Empty key'')"
  "msg_invalid_key n key = line_msg n (js ''Invalid key '' @ [DQ] @ key @ [DQ]
       @ js '' - use uppercase letters, numbers, and underscores'')"
  "msg_duplicate_key n key = line_msg n (js ''Duplicate key '' @ [DQ] @ key @ [DQ])"
  "msg_unquoted_value n key v = line_msg n (js ''Unquoted value with spaces - consider quoting: ''
       @ key @ js ''='' @ [DQ] @ v @ [DQ])"
  by (simp_all add: line_msg_def msg_invalid_syntax_def msg_empty_key_def msg_invalid_key_def
      msg_duplicate_key_def msg_unquoted_value_def)


subsection \<open>One line of the validation pass\<close>

lemma trim_Nil [simp]: "trim [] = []"
  by (simp add: trim_def)

lemma COMMENT_test_Nil [simp]: "\<not> COMMENT_test []"
  by (simp add: COMMENT_test_def)

lemma ENV_LINE_match_Nil [simp]: "ENV_LINE_match [] = None"
  by (simp add: ENV_LINE_match_def)

lemma trim_no_space_ends:
  assumes "s \<noteq> []" "\<not> is_space (hd s)" "\<not> is_space (last s)"
  shows "trim s = s"
proof -
  from assms have "dropWhile is_space s = s" by (cases s) simp_all
  moreover from assms have "dropWhile is_space (rev s) = rev s"
    by (cases "rev s") (simp_all add: last_rev [symmetric] del: last_rev)
  ultimately show ?thesis by (simp add: trim_def)
qed

lemma key_char_i_not_space: "is_key_char_i c \<Longrightarrow> \<not> is_space c"
  by (auto simp: char_class_defs)

lemma trim_key_chars:
  assumes "list_all is_key_char_i s"
  shows "trim s = s"
proof (cases "s = []")
  case True
  then show ?thesis by simp
next
  case False
  with assms have "is_key_char_i (hd s)" "is_key_char_i (last s)"
    by (simp_all add: list_all_iff)
  with False show ?thesis by (intro trim_no_space_ends key_char_i_not_space)
qed

lemma env_line_parts_SomeD:
  assumes "env_line_parts l = Some (key, v)"
  obtains g2 where "ENV_LINE_match (trim l) = Some [Some (trim l), Some key, Some g2]"
    and "v = trim g2" and "dropWhile is_space (trim l) = key @ EQ # g2"
    and "key \<noteq> []" and "is_key_start_i (hd key)" and "list_all is_key_char_i key"
    and "list_all (\<lambda>c. \<not> is_line_terminator c) g2"
    and "trim l \<noteq> []" and "\<not> COMMENT_test (trim l)"
proof -
  from assms obtain m where m: "ENV_LINE_match (trim l) = Some m"
    by (auto simp: env_line_parts_def split: option.splits)
  then obtain g1 g2 where m3: "m = [Some (trim l), Some g1, Some g2]"
    and d: "dropWhile is_space (trim l) = g1 @ EQ # g2"
    and ne: "g1 \<noteq> []" and ks: "is_key_start_i (hd g1)" and al: "list_all is_key_char_i g1"
    and lt: "list_all (\<lambda>c. \<not> is_line_terminator c) g2"
    by (rule ENV_LINE_match_SomeD)
  from al have tg: "trim g1 = g1" by (rule trim_key_chars)
  from assms m m3 tg have kv: "key = g1" "v = trim g2"
    by (simp_all add: env_line_parts_def)
  from m have t: "trim l \<noteq> []" by auto
  from ne have g1: "g1 = hd g1 # tl g1" by simp
  have nh: "hd g1 \<noteq> HASH"
    using ks by (auto simp: char_class_defs)
  from d g1 have "dropWhile is_space (trim l) = hd g1 # (tl g1 @ EQ # g2)"
    by (metis append_Cons)
  with nh have c: "\<not> COMMENT_test (trim l)"
    by (simp add: COMMENT_test_def)
  from m m3 kv have "ENV_LINE_match (trim l) = Some [Some (trim l), Some key, Some g2]" by simp
  then show thesis using kv(2) d [folded kv(1)] ne [folded kv(1)] ks [folded kv(1)]
      al [folded kv(1)] lt t c
    by (rule that)
qed

lemma validate_step_env_line:
  assumes "env_line_parts l = Some (key, v)"
  shows "validate_step n l st =
           Inr (if v \<noteq> [] \<and> \<not> isQuoted v \<and> list_ex is_space v
                then (fst (validateKey key n st),
                      snd (validateKey key n st) @ [msg_unquoted_value n key v])
                else validateKey key n st)"
proof -
  from assms obtain g2 where "ENV_LINE_match (trim l) = Some [Some (trim l), Some key, Some g2]"
    and "v = trim g2" and "list_all is_key_char_i key"
    and "trim l \<noteq> []" and "\<not> COMMENT_test (trim l)"
    by (rule env_line_parts_SomeD)
  then show ?thesis
    by (simp add: validate_step_def Let_def trim_key_chars)
qed

lemma line_key_env_line:
  assumes "env_line_parts l = Some (key, v)"
  shows "line_key l = Some key"
proof -
  from assms obtain g2 where "ENV_LINE_match (trim l) = Some [Some (trim l), Some key, Some g2]"
    and "list_all is_key_char_i key"
    and "trim l \<noteq> []" and "\<not> COMMENT_test (trim l)"
    by (rule env_line_parts_SomeD)
  then show ?thesis
    by (simp add: line_key_def Let_def trim_key_chars)
qed

lemma validate_step_cases:
  obtains (skipped) "line_key l = None" "validate_step n l st = Inr st"
  | (malformed) "line_key l = None"
      "validate_step n l st = Inr (fst st, snd st @ [msg_invalid_syntax n])"
  | (exported) key where "line_key l = Some key" "env_line_parts l = None"
      "validate_step n l st = Inr (validateKey key n st)"
  | (entry) key v where "line_key l = Some key" "env_line_parts l = Some (key, v)"
proof (cases "trim l = [] \<or> COMMENT_test (trim l)")
  case True
  then have "line_key l = None" "validate_step n l st = Inr st"
    by (auto simp: line_key_def validate_step_def)
  then show thesis by (rule skipped)
next
  case False
  show thesis
  proof (cases "ENV_LINE_match (trim l)")
    case None
    show thesis
    proof (cases "EXPORT_match (trim l)")
      case N: None
      with None False have "line_key l = None"
        "validate_step n l st = Inr (fst st, snd st @ [msg_invalid_syntax n])"
        by (auto simp: line_key_def validate_step_def)
      then show thesis by (rule malformed)
    next
      case (Some em)
      then obtain g1 g2 where "em = [Some (trim l), Some g1, Some g2]"
        by (rule EXPORT_match_SomeD)
      with None Some False have "line_key l = Some (trim g1)" "env_line_parts l = None"
        "validate_step n l st = Inr (validateKey (trim g1) n st)"
        by (auto simp: line_key_def validate_step_def env_line_parts_def)
      then show thesis by (rule exported)
    qed
  next
    case (Some m)
    then obtain g1 g2 where "m = [Some (trim l), Some g1, Some g2]"
      by (rule ENV_LINE_match_SomeD)
    with Some have p: "env_line_parts l = Some (trim g1, trim g2)"
      by (simp add: env_line_parts_def)
    then have "line_key l = Some (trim g1)" by (rule line_key_env_line)
    then show thesis using p by (rule entry)
  qed
qed


lemma validateKey_cases:
  obtains (empty) "key = []" "validateKey key n st = (fst st, snd st @ [msg_empty_key n])"
  | (invalid) "key \<noteq> []" "\<not> ENV_KEY_test key"
      "validateKey key n st = (fst st, snd st @ [msg_invalid_key n key])"
  | (duplicate) "ENV_KEY_test key" "key \<in> fst st"
      "validateKey key n st = (fst st, snd st @ [msg_duplicate_key n key])"
  | (fresh) "ENV_KEY_test key" "key \<notin> fst st"
      "validateKey key n st = (insert key (fst st), snd st)"
  by (cases "key = []"; cases "ENV_KEY_test key"; cases "key \<in> fst st")
     (simp_all add: validateKey_def)

lemma validateKey_step_ok:
  assumes "line_key l = Some key"
  shows "\<exists>new. step_ok n l st (validateKey key n st) new"
  using assms
  by (cases rule: validateKey_cases [where key = key and n = n and st = st])
     (auto simp: step_ok_def msg_line_msg)

lemma validate_step_step_ok:
  assumes "validate_step n l st = Inr st'"
  shows "\<exists>new. step_ok n l st st' new"
proof (cases rule: validate_step_cases [where l = l and n = n and st = st])
  case skipped
  with assms have "step_ok n l st st' []" by (simp add: step_ok_def)
  then show ?thesis ..
next
  case malformed
  with assms have "step_ok n l st st' [msg_invalid_syntax n]"
    by (auto simp: step_ok_def msg_line_msg)
  then show ?thesis ..
next
  case (exported key)
  with assms validateKey_step_ok [of l key n st] show ?thesis by simp
next
  case (entry key v)
  from entry(1) obtain new where n: "step_ok n l st (validateKey key n st) new"
    using validateKey_step_ok by blast
  show ?thesis
  proof (cases "v \<noteq> [] \<and> \<not> isQuoted v \<and> list_ex is_space v")
    case True
    with assms entry(2) have "st' = (fst (validateKey key n st),
        snd (validateKey key n st) @ [msg_unquoted_value n key v])"
      by (simp add: validate_step_env_line)
    with n have "step_ok n l st st' (new @ [msg_unquoted_value n key v])"
      by (auto simp: step_ok_def msg_line_msg)
    then show ?thesis ..
  next
    case False
    with assms entry(2) have "st' = validateKey key n st"
      by (simp add: validate_step_env_line)
    with n show ?thesis by blast
  qed
qed

subsection \<open>The whole validation pass\<close>

lemma validate_loop_append:
  "validate_loop i (xs @ ys) st = bindE (validate_loop i xs st) (validate_loop (i + length xs) ys)"
proof (induction xs arbitrary: i st)
  case Nil
  show ?case by simp
next
  case (Cons x xs)
  show ?case
  proof (cases "validate_step (i + 1) x st")
    case (Inl e)
    then show ?thesis by simp
  next
    case (Inr st1)
    with Cons [of "i + 1" st1] show ?thesis by simp
  qed
qed

lemma validate_loop_loop_ok:
  assumes "validate_loop i ls st = Inr st'"
  shows "\<exists>new. loop_ok i ls st st' new"
  using assms
proof (induction ls arbitrary: i st)
  case Nil
  then have "loop_ok i [] st st' []" by (simp add: loop_ok_def)
  then show ?case ..
next
  case (Cons l ls)
  from Cons.prems obtain st1 where s: "validate_step (i + 1) l st = Inr st1"
    and r: "validate_loop (i + 1) ls st1 = Inr st'"
    by (auto simp: bindE_eq_Inr)
  from s obtain new1 where n1: "step_ok (i + 1) l st st1 new1"
    using validate_step_step_ok by blast
  from Cons.IH [OF r] obtain new2 where n2: "loop_ok (i + 1) ls st1 st' new2" ..
  have "loop_ok i (l # ls) st st' (new1 @ new2)"
    unfolding loop_ok_def
  proof (intro conjI ballI)
    show "snd st' = snd st @ new1 @ new2"
      using n1 n2 by (simp add: step_ok_def loop_ok_def)
  next
    fix e assume "e \<in> set (new1 @ new2)"
    then consider "e \<in> set new1" | "e \<in> set new2" by auto
    then show "\<exists>n body. e = line_msg n body \<and> i < n \<and> n \<le> i + length (l # ls)"
    proof cases
      case 1
      with n1 obtain body where "e = line_msg (i + 1) body" by (auto simp: step_ok_def)
      then show ?thesis by auto
    next
      case 2
      with n2 obtain n body where "e = line_msg n body" "i + 1 < n" "n \<le> i + 1 + length ls"
        by (auto simp: loop_ok_def)
      then show ?thesis by auto
    qed
  next
    show "fst st \<subseteq> fst st'" using n1 n2 by (auto simp: step_ok_def loop_ok_def)
  next
    fix k assume k: "k \<in> fst st' - fst st"
    show "\<exists>m<length (l # ls). line_key ((l # ls) ! m) = Some k"
    proof (cases "k \<in> fst st1")
      case True
      with k n1 have "line_key l = Some k" by (auto simp: step_ok_def)
      then have "line_key ((l # ls) ! 0) = Some k" by simp
      then show ?thesis by blast
    next
      case False
      with k have "k \<in> fst st' - fst st1" by simp
      with n2 obtain m where "m < length ls" "line_key (ls ! m) = Some k"
        unfolding loop_ok_def by blast
      then have "Suc m < length (l # ls)" "line_key ((l # ls) ! Suc m) = Some k" by simp_all
      then show ?thesis by blast
    qed
  qed
  then show ?case ..
qed

text \<open>
  The pass around line \<open>i\<close>: the lines before it, the line itself, the lines after it.
  A message tagged \<open>i + 1\<close> is in the result exactly when line \<open>i\<close> produced it.
\<close>

lemma validate_at_line:
  assumes v: "validateEnvContent content = Inr errors"
    and i: "i < length (split_lines content)"
  shows "\<exists>st1 st2 new.
    validate_step (i + 1) (split_lines content ! i) st1 = Inr st2
    \<and> snd st2 = snd st1 @ new
    \<and> (\<forall>body. line_msg (i + 1) body \<in> set errors \<longleftrightarrow> line_msg (i + 1) body \<in> set new)
    \<and> (\<forall>k\<in>fst st1. \<exists>m<i. line_key (split_lines content ! m) = Some k)"
proof -
  let ?ls = "split_lines content"
  have d: "?ls = take i ?ls @ (?ls ! i) # drop (Suc i) ?ls"
    using i by (simp add: id_take_nth_drop)
  have len: "length (take i ?ls) = i" using i by simp
  have mn: "min (length ?ls) i = i" using i by simp
  from v obtain st3 where l: "validate_loop 0 ?ls ({}, []) = Inr st3" and e: "errors = snd st3"
    by (auto simp: validateEnvContent_def bindE_eq_Inr)
  from l d have "validate_loop 0 (take i ?ls @ (?ls ! i) # drop (Suc i) ?ls) ({}, []) = Inr st3"
    by simp
  then obtain st1 st2 where a: "validate_loop 0 (take i ?ls) ({}, []) = Inr st1"
    and b: "validate_step (i + 1) (?ls ! i) st1 = Inr st2"
    and c: "validate_loop (i + 1) (drop (Suc i) ?ls) st2 = Inr st3"
    by (auto simp: validate_loop_append bindE_eq_Inr mn)
  from a obtain new1 where n1: "loop_ok 0 (take i ?ls) ({}, []) st1 new1"
    using validate_loop_loop_ok by blast
  from b obtain new where n: "step_ok (i + 1) (?ls ! i) st1 st2 new"
    using validate_step_step_ok by blast
  from c obtain new3 where n3: "loop_ok (i + 1) (drop (Suc i) ?ls) st2 st3 new3"
    using validate_loop_loop_ok by blast
  have errs: "errors = new1 @ new @ new3"
    using e n1 n n3 by (simp add: loop_ok_def step_ok_def)
  have before: "line_msg (i + 1) body \<notin> set new1" for body
  proof
    assume "line_msg (i + 1) body \<in> set new1"
    with n1 obtain n' b' where "line_msg (i + 1) body = line_msg n' b'" "n' \<le> 0 + length (take i ?ls)"
      unfolding loop_ok_def by blast
    with len show False by simp
  qed
  have after: "line_msg (i + 1) body \<notin> set new3" for body
  proof
    assume "line_msg (i + 1) body \<in> set new3"
    with n3 obtain n' b' where "line_msg (i + 1) body = line_msg n' b'" "i + 1 < n'"
      unfolding loop_ok_def by blast
    then show False by simp
  qed
  have keys: "\<exists>m<i. line_key (?ls ! m) = Some k" if "k \<in> fst st1" for k
  proof -
    from that n1 obtain m where "m < length (take i ?ls)" "line_key (take i ?ls ! m) = Some k"
      by (auto simp: loop_ok_def)
    with len have "m < i" "line_key (?ls ! m) = Some k" by simp_all
    then show ?thesis by blast
  qed
  have "snd st2 = snd st1 @ new" using n by (simp add: step_ok_def)
  moreover have "\<forall>body. line_msg (i + 1) body \<in> set errors \<longleftrightarrow> line_msg (i + 1) body \<in> set new"
    using errs before after by auto
  moreover have "\<forall>k\<in>fst st1. \<exists>m<i. line_key (?ls ! m) = Some k"
    using keys by blast
  ultimately show ?thesis using b by blast
qed


subsection \<open>Messages of one line\<close>

lemma snd_validateKey:
  "snd (validateKey key n st) =
     snd st @ (if key = [] then [msg_empty_key n]
               else if \<not> ENV_KEY_test key then [msg_invalid_key n key]
               else if key \<in> fst st then [msg_duplicate_key n key]
               else [])"
  by (simp add: validateKey_def)

lemma step_new_exported:
  assumes "validate_step n l st = Inr st'" and "snd st' = snd st @ new"
    and "validate_step n l st = Inr (validateKey key n st)"
  shows "new = (if key = [] then [msg_empty_key n]
               else if \<not> ENV_KEY_test key then [msg_invalid_key n key]
               else if key \<in> fst st then [msg_duplicate_key n key]
               else [])"
proof -
  from assms(1,3) have "st' = validateKey key n st" by simp
  with assms(2) have "snd st @ new = snd (validateKey key n st)" by simp
  then show ?thesis by (simp only: snd_validateKey same_append_eq)
qed

lemma step_new_entry:
  assumes "validate_step n l st = Inr st'" and "snd st' = snd st @ new"
    and "env_line_parts l = Some (key, v)"
  shows "new = (if key = [] then [msg_empty_key n]
               else if \<not> ENV_KEY_test key then [msg_invalid_key n key]
               else if key \<in> fst st then [msg_duplicate_key n key]
               else [])
       @ (if v \<noteq> [] \<and> \<not> isQuoted v \<and> list_ex is_space v
          then [msg_unquoted_value n key v] else [])"
proof -
  from assms(1) validate_step_env_line [OF assms(3), of n st]
  have "st' = (if v \<noteq> [] \<and> \<not> isQuoted v \<and> list_ex is_space v
                then (fst (validateKey key n st),
                      snd (validateKey key n st) @ [msg_unquoted_value n key v])
                else validateKey key n st)"
    by simp
  then have "snd st' = snd (validateKey key n st)
       @ (if v \<noteq> [] \<and> \<not> isQuoted v \<and> list_ex is_space v
          then [msg_unquoted_value n key v] else [])"
    by simp
  with assms(2) have "snd st @ new = snd (validateKey key n st)
       @ (if v \<noteq> [] \<and> \<not> isQuoted v \<and> list_ex is_space v
          then [msg_unquoted_value n key v] else [])"
    by simp
  then show ?thesis by (simp only: snd_validateKey append_assoc same_append_eq)
qed

lemma step_duplicate:
  assumes s: "validate_step n l st = Inr st'" and n: "snd st' = snd st @ new"
    and d: "msg_duplicate_key n k \<in> set new"
  shows "k \<in> fst st \<and> line_key l = Some k"
proof (cases rule: validate_step_cases [where l = l and n = n and st = st])
  case skipped
  with s n d show ?thesis by simp
next
  case malformed
  with s n d show ?thesis by (auto simp: msg_line_msg)
next
  case (exported key)
  from step_new_exported [OF s n exported(3)] d exported(1) show ?thesis
    by (auto simp: msg_line_msg split: if_splits)
next
  case (entry key v)
  from step_new_entry [OF s n entry(2)] d entry(1) show ?thesis
    by (auto simp: msg_line_msg split: if_splits)
qed


lemma step_unquoted_value:
  assumes p: "env_line_parts l = Some (key, v)"
    and s: "validate_step n l st = Inr st'" and n: "snd st' = snd st @ new"
    and c: "v \<noteq> []" "\<not> isQuoted v" "list_ex is_space v"
  shows "msg_unquoted_value n key v \<in> set new"
  using step_new_entry [OF s n p] c by simp

subsection \<open>Claims about the validator\<close>

lemma errors_line_range:
  assumes "validateEnvContent content = Inr errors" and "line_msg n body \<in> set errors"
  shows "0 < n \<and> n \<le> length (split_lines content)"
proof -
  from assms(1) obtain st where l: "validate_loop 0 (split_lines content) ({}, []) = Inr st"
    and e: "errors = snd st"
    by (auto simp: validateEnvContent_def bindE_eq_Inr)
  from l obtain new where "loop_ok 0 (split_lines content) ({}, []) st new"
    using validate_loop_loop_ok by blast
  with e assms(2) obtain n' b' where "line_msg n body = line_msg n' b'" "0 < n'"
    "n' \<le> 0 + length (split_lines content)"
    unfolding loop_ok_def by auto
  then show ?thesis by simp
qed

text \<open>
  An empty key is possible only after \<^verbatim>\<open>export\<close>, where the group
  \<^verbatim>\<open>[^=]+\<close> can consist of white space. It gets the empty-key message, not the
  invalid-key one.
\<close>

lemma validate_export_empty_key:
  "validateEnvContent (js ''export  =1'') = Inr [js ''Line 1: Empty key'']"
  by code_simp



text \<open>
  C6. Validating \<^verbatim>\<open>A=1\<close>, \<^verbatim>\<open>A=2\<close> gives exactly one message, the
  duplicate at line 2. In general a duplicate-key message for key \<open>k\<close> at line
  \<open>n\<close> means that line \<open>n\<close> carries \<open>k\<close> and that an earlier line
  \<open>m < n\<close> carries it too: the first occurrence of a key is never the one flagged.
\<close>

theorem duplicate_only_after_first_occurrence:
  "validateEnvContent (js ''A=1'' @ [LF] @ js ''A=2'') = Inr [js ''Line 2: Duplicate key '' @ [DQ] @ js ''A'' @ [DQ]]
   \<and> (\<forall>content errors n k.
         validateEnvContent content = Inr errors \<longrightarrow> msg_duplicate_key n k \<in> set errors \<longrightarrow>
         (\<exists>m. 0 < m \<and> m < n \<and> n \<le> length (split_lines content)
              \<and> line_key (split_lines content ! (m - 1)) = Some k
              \<and> line_key (split_lines content ! (n - 1)) = Some k))"
proof (intro conjI allI impI)
  show "validateEnvContent (js ''A=1'' @ [LF] @ js ''A=2'') = Inr [js ''Line 2: Duplicate key '' @ [DQ] @ js ''A'' @ [DQ]]"
    by code_simp
next
  fix content errors n k
  assume v: "validateEnvContent content = Inr errors" and d: "msg_duplicate_key n k \<in> set errors"
  let ?ls = "split_lines content"
  from d have d': "line_msg n (js ''Duplicate key '' @ [DQ] @ k @ [DQ]) \<in> set errors"
    by (simp add: msg_line_msg)
  with v have r: "0 < n" "n \<le> length ?ls" using errors_line_range by blast+
  from r(1) obtain i where ni: "n = i + 1" by (cases n) auto
  with r(2) have i: "i < length ?ls" by simp
  from validate_at_line [OF v i] obtain st1 st2 new where
    s: "validate_step (i + 1) (?ls ! i) st1 = Inr st2"
    and n: "snd st2 = snd st1 @ new"
    and m: "\<And>body. line_msg (i + 1) body \<in> set errors \<longleftrightarrow> line_msg (i + 1) body \<in> set new"
    and k: "\<And>k. k \<in> fst st1 \<Longrightarrow> \<exists>m<i. line_key (?ls ! m) = Some k"
    by blast
  from d' have "line_msg (i + 1) (js ''Duplicate key '' @ [DQ] @ k @ [DQ]) \<in> set new"
    unfolding ni m .
  then have "msg_duplicate_key (i + 1) k \<in> set new"
    by (simp only: msg_line_msg)
  from step_duplicate [OF s n this]
  have a: "k \<in> fst st1" and b: "line_key (?ls ! i) = Some k" by simp_all
  from k [OF a] obtain m0 where "m0 < i" "line_key (?ls ! m0) = Some k" by blast
  with ni have "0 < Suc m0 \<and> Suc m0 < n \<and> line_key (?ls ! (Suc m0 - 1)) = Some k" by simp
  moreover from b ni have "line_key (?ls ! (n - 1)) = Some k" by simp
  ultimately show "\<exists>m. 0 < m \<and> m < n \<and> n \<le> length ?ls
              \<and> line_key (?ls ! (m - 1)) = Some k
              \<and> line_key (?ls ! (n - 1)) = Some k"
    using r by blast
qed



text \<open>The example again: the duplicate at line 2 has its first occurrence at line 1.\<close>

theorem duplicate_only_after_first_occurrence_witness:
  "\<exists>m. 0 < m \<and> m < (2::nat) \<and> 2 \<le> length (split_lines (js ''A=1'' @ [LF] @ js ''A=2''))
       \<and> line_key (split_lines (js ''A=1'' @ [LF] @ js ''A=2'') ! (m - 1)) = Some (js ''A'')
       \<and> line_key (split_lines (js ''A=1'' @ [LF] @ js ''A=2'') ! (2 - 1)) = Some (js ''A'')"
proof -
  have v: "validateEnvContent (js ''A=1'' @ [LF] @ js ''A=2'') = Inr [msg_duplicate_key 2 (js ''A'')]"
    by code_simp
  have d: "msg_duplicate_key 2 (js ''A'') \<in> set [msg_duplicate_key 2 (js ''A'')]" by simp
  from duplicate_only_after_first_occurrence [THEN conjunct2, rule_format, OF v d]
  show ?thesis .
qed

subsection \<open>Claims about lint\<close>

lemma additional_loop_messages:
  "x \<in> set (additional_loop i ls) \<Longrightarrow>
     message x = js ''Line contains only whitespace'' \<or> message x = js ''Value with spaces should be quoted''"
  by (induction ls arbitrary: i) (auto simp: additional_issues_def split: if_splits)

lemma lint_issues_eq:
  assumes "validateEnvContent content = Inr errors"
  shows "lint_issues content =
           Inr (map validation_issue errors @ additional_loop 0 (split_lines content))"
proof -
  obtain e where "parseEnvContent content = Inr e" using parseEnvContent_returns by blast
  with assms show ?thesis by (simp add: lint_issues_def)
qed

text \<open>
  The validation pass returns plain strings without a severity, and
  \<^verbatim>\<open>lintCommand\<close> turns every one of them into an issue of severity
  \<^verbatim>\<open>'error'\<close>. So for every \<^verbatim>\<open>KEY=VALUE\<close> line whose value is not empty,
  not wrapped in quotes and contains white space, the lint issues contain the
  unquoted-value message for that line with severity error, and with no other severity.
\<close>

lemma unquoted_value_issue_is_error:
  assumes i: "i < length (split_lines content)"
    and p: "env_line_parts (split_lines content ! i) = Some (key, v)"
    and c: "v \<noteq> []" "\<not> isQuoted v" "list_ex is_space v"
  shows "\<exists>errors issues.
           validateEnvContent content = Inr errors
           \<and> msg_unquoted_value (i + 1) key v \<in> set errors
           \<and> lint_issues content = Inr issues
           \<and> \<lparr>line = i + 1,
               message = js ''Unquoted value with spaces - consider quoting: ''
                           @ key @ js ''='' @ [DQ] @ v @ [DQ],
               severity = SeverityError\<rparr> \<in> set issues
           \<and> (\<forall>x\<in>set issues.
                 message x = js ''Unquoted value with spaces - consider quoting: ''
                               @ key @ js ''='' @ [DQ] @ v @ [DQ]
                 \<longrightarrow> severity x = SeverityError)"
proof -
  let ?B = "js ''Unquoted value with spaces - consider quoting: '' @ key @ js ''='' @ [DQ] @ v @ [DQ]"
  obtain errors where v: "validateEnvContent content = Inr errors"
    using validateEnvContent_returns by blast
  from validate_at_line [OF v i] obtain st1 st2 new where
    s: "validate_step (i + 1) (split_lines content ! i) st1 = Inr st2"
    and n: "snd st2 = snd st1 @ new"
    and m: "\<And>body. line_msg (i + 1) body \<in> set errors \<longleftrightarrow> line_msg (i + 1) body \<in> set new"
    by blast
  have f: "msg_unquoted_value (i + 1) key v = line_msg (i + 1) ?B"
    by (simp only: msg_line_msg)
  from step_unquoted_value [OF p s n c] have e: "msg_unquoted_value (i + 1) key v \<in> set errors"
    unfolding f m .
  let ?issues = "map validation_issue errors @ additional_loop 0 (split_lines content)"
  have l: "lint_issues content = Inr ?issues" using v by (rule lint_issues_eq)
  from e have "validation_issue (msg_unquoted_value (i + 1) key v) \<in> set ?issues" by simp
  then have x: "\<lparr>line = i + 1, message = ?B, severity = SeverityError\<rparr> \<in> set ?issues"
    unfolding f validation_issue_line_msg .
  have a: "severity x = SeverityError" if "x \<in> set ?issues" "message x = ?B" for x
  proof (cases "x \<in> set (additional_loop 0 (split_lines content))")
    case True
    from additional_loop_messages [OF True] that(2) show ?thesis by auto
  next
    case False
    with that(1) show ?thesis by (auto simp: validation_issue_def)
  qed
  from v e l x a show ?thesis by blast
qed

text \<open>
  C7. The claim: a value that is not empty, not wrapped in quotes and contains white
  space yields a diagnostic of severity warning, not error, with the unquoted-value
  message. The repository agrees with the claim: the message itself only advises
  (\<^verbatim>\<open>consider quoting\<close>), \<^verbatim>\<open>WARNING_MESSAGES.UNQUOTED_VALUE\<close> lists the
  diagnostic among the warnings, and the additional check of \<^verbatim>\<open>lintCommand\<close> for
  the same defect reports a warning. The severity error comes from the blanket mapping of
  every validation message. On \<^verbatim>\<open>KEY=a<TAB>b\<close> the only issue is the error: the
  additional check needs a literal space and adds nothing.
\<close>

theorem lint_reports_unquoted_value_as_error:
  "lint_issues (js ''KEY=a'' @ [TAB] @ js ''b'')
     = Inr [\<lparr>line = 1,
             message = js ''Unquoted value with spaces - consider quoting: KEY=''
                         @ [DQ] @ js ''a'' @ [TAB] @ js ''b'' @ [DQ],
             severity = SeverityError\<rparr>]"
  by code_simp

section \<open>Comments and continuation\<close>

lemma parse_loop_append:
  "parse_loop (xs @ ys) st = bindE (parse_loop xs st) (parse_loop ys)"
proof (induction xs arbitrary: st)
  case Nil
  show ?case by simp
next
  case (Cons x xs)
  show ?case
  proof (cases "parse_step x st")
    case (Inl e)
    then show ?thesis by simp
  next
    case (Inr st1)
    with Cons [of st1] show ?thesis by simp
  qed
qed

lemma COMMENT_test_nonempty: "COMMENT_test s \<Longrightarrow> s \<noteq> []"
  by auto

text \<open>
  C8, as amended. The claim: a comment line met while a continuation is open is skipped
  and its text is not appended to the value. The loop tests for an open continuation
  before it trims the line or looks for a comment. What holds, for the state \<open>st\<close>
  that the loop has reached after any lines \<open>pre\<close>: a comment line leaves
  \<open>st\<close> unchanged when no continuation is open; when one is open for key
  \<open>ck\<close>, the line is appended to the accumulated value like any other line, with a
  newline when it ends with a backslash, and otherwise the value is stored under
  \<open>ck\<close> and the continuation is closed.
\<close>

theorem comment_line_skipped_only_outside_continuation:
  assumes "parse_loop pre \<lparr>env = [], currentKey = None, currentValue = []\<rparr> = Inr st"
    and "COMMENT_test (trim l)"
  shows "parse_loop (pre @ [l]) \<lparr>env = [], currentKey = None, currentValue = []\<rparr> =
           Inr (case currentKey st of
                  None \<Rightarrow> st
                | Some ck \<Rightarrow>
                    if endsWith l BS
                    then st\<lparr>currentValue := currentValue st @ butlast l @ [LF]\<rparr>
                    else \<lparr>env = set_prop (env st) ck (processValue (currentValue st @ l)),
                          currentKey = None, currentValue = []\<rparr>)"
proof (cases "currentKey st")
  case None
  with assms show ?thesis
    by (simp add: parse_loop_append parse_step_def COMMENT_test_nonempty)
next
  case (Some ck)
  with assms(1) show ?thesis
    by (simp add: parse_loop_append parse_step_def)
qed

text \<open>After \<^verbatim>\<open>KEY=a\\<close>, the comment \<^verbatim>\<open># c\<close> ends up in the value.\<close>

theorem comment_line_skipped_only_outside_continuation_witness:
  "parse_loop ([js ''KEY=a'' @ [BS]] @ [js ''# c'']) \<lparr>env = [], currentKey = None, currentValue = []\<rparr>
     = Inr \<lparr>env = [(js ''KEY'', js ''a# c'')], currentKey = None, currentValue = []\<rparr>"
proof -
  have p: "parse_loop [js ''KEY=a'' @ [BS]] \<lparr>env = [], currentKey = None, currentValue = []\<rparr>
             = Inr \<lparr>env = [], currentKey = Some (js ''KEY''), currentValue = js ''a''\<rparr>"
    by code_simp
  have c: "COMMENT_test (trim (js ''# c''))" by code_simp
  have e: "\<not> endsWith (js ''# c'') BS" by code_simp
  have v: "set_prop [] (js ''KEY'') (processValue (js ''a'' @ js ''# c'')) = [(js ''KEY'', js ''a# c'')]" by code_simp
  from comment_line_skipped_only_outside_continuation [OF p c] e v show ?thesis by simp
qed

text \<open>The claim as stated fails on the same two lines, parsed from the text.\<close>

theorem comment_line_joins_open_continuation:
  "parseEnvContent (js ''KEY=a'' @ [BS, LF] @ js ''# c'') = Inr [(js ''KEY'', js ''a# c'')]"
  by code_simp

section \<open>Serialising and parsing back\<close>

subsection \<open>Characters and the export prefix\<close>


lemma key_char_i_plain:
  assumes "is_key_char_i c"
  shows "c \<noteq> EQ" "c \<noteq> LF" "c \<noteq> HASH" "\<not> is_space c" "\<not> is_line_terminator c"
  using assms by (auto simp: char_class_defs)



lemma export_letters_key_chars: "list_all is_key_char_i (js ''exportEXPORT'')"
  by code_simp

lemma export_keyword_letters:
  assumes "is_export_keyword w"
  shows "length w = 6" "list_all is_key_char_i w"
proof -
  from assms show "length w = 6"
    by (auto simp: is_export_keyword_def dest: list_all2_lengthD)
  from assms have "set w \<subseteq> set (js ''exportEXPORT'')"
    by (auto simp: is_export_keyword_def list_all2_Cons2)
  with export_letters_key_chars show "list_all is_key_char_i w"
    unfolding list_all_iff by blast
qed

text \<open>The export branch of the parser is never reached.\<close>

lemma ENV_LINE_excludes_EXPORT:
  assumes "ENV_LINE_match s = Some m"
  shows "EXPORT_match s = None"
proof (rule ccontr)
  assume "EXPORT_match s \<noteq> None"
  let ?s1 = "dropWhile is_space s"
  from \<open>EXPORT_match s \<noteq> None\<close> have kw: "is_export_keyword (take 6 ?s1)"
    and ws: "takeWhile is_space (drop 6 ?s1) \<noteq> []"
    by (auto simp: EXPORT_match_def Let_def split: if_splits)
  from assms obtain key v where d: "?s1 = key @ EQ # v"
    and al: "list_all is_key_char_i key"
    by (rule ENV_LINE_match_SomeD)
  from kw have l6: "length (take 6 ?s1) = 6" and a6: "list_all is_key_char_i (take 6 ?s1)"
    by (rule export_keyword_letters)+
  have "6 \<le> length key"
  proof (rule ccontr)
    assume "\<not> 6 \<le> length key"
    then have "length key < 6" by simp
    with d l6 have "take 6 ?s1 ! length key = EQ"
      by (simp add: nth_append)
    moreover from \<open>length key < 6\<close> l6 have "take 6 ?s1 ! length key \<in> set (take 6 ?s1)"
      by (metis nth_mem)
    ultimately have "is_key_char_i EQ" using a6 by (simp add: list_all_iff)
    then show False by (simp add: char_class_defs)
  qed
  with d have dr: "drop 6 ?s1 = drop 6 key @ EQ # v" by simp
  have "\<not> is_space (hd (drop 6 ?s1))"
  proof (cases "drop 6 key")
    case Nil
    with dr show ?thesis by (simp add: is_space_def)
  next
    case (Cons c cs)
    then have "c \<in> set key" by (metis in_set_dropD list.set_intros(1))
    with al have "is_key_char_i c" by (simp add: list_all_iff)
    with dr Cons show ?thesis by (simp add: key_char_i_plain)
  qed
  moreover from dr have "drop 6 ?s1 \<noteq> []" by simp
  ultimately have "takeWhile is_space (drop 6 ?s1) = []"
    by (cases "drop 6 ?s1") simp_all
  with ws show False by simp
qed


text \<open>
  A line that the export pattern matches is passed over by the parser: outside a
  continuation it changes nothing.
\<close>

lemma parse_step_export_line:
  assumes "EXPORT_match (trim l) = Some em" and "currentKey st = None"
  shows "parse_step l st = Inr st"
proof -
  have "ENV_LINE_match (trim l) = None"
  proof (cases "ENV_LINE_match (trim l)")
    case (Some m)
    then have "EXPORT_match (trim l) = None" by (rule ENV_LINE_excludes_EXPORT)
    with assms(1) show ?thesis by simp
  qed
  with assms(2) show ?thesis by (simp add: parse_step_def Let_def)
qed

text \<open>
  C3. The claim: the lenient parser strips a leading \<^verbatim>\<open>export\<close> keyword and
  records \<^verbatim>\<open>KEY\<close> with the processed value. The code looks for the export
  pattern only after \<^verbatim>\<open>ENV_LINE\<close> has matched the same trimmed line, and
  \<^verbatim>\<open>ENV_LINE\<close> wants \<^verbatim>\<open>=\<close> right after the first word: an export line
  never gets that far, and the parser drops it, while the same line without the prefix is
  recorded and the validator, which tries the export pattern when \<^verbatim>\<open>ENV_LINE\<close>
  fails, accepts the line.
\<close>

theorem parse_skips_export_line:
  "parseEnvContent (js ''export FOO=bar'') = Inr []
   \<and> parseEnvContent (js ''FOO=bar'') = Inr [(js ''FOO'', js ''bar'')]
   \<and> validateEnvContent (js ''export FOO=bar'') = Inr []"
proof (intro conjI)
  show "parseEnvContent (js ''export FOO=bar'') = Inr []" by code_simp
  show "parseEnvContent (js ''FOO=bar'') = Inr [(js ''FOO'', js ''bar'')]" by code_simp
  show "validateEnvContent (js ''export FOO=bar'') = Inr []" by code_simp
qed

subsection \<open>Lines of the serialised text\<close>















subsection \<open>The round trip\<close>










text \<open>
  The other line terminators do not split the line, but \<^verbatim>\<open>ENV_LINE\<close> no longer
  matches it: a value with U+2028, which the parser produces from a continuation, or
  with a carriage return, is lost with its key.
\<close>

lemma roundtrip_loses_quoted_line_separator:
  "parseEnvContent (js ''K=a'' @ [BS, LF, LS] @ js ''b'') = Inr [(js ''K'', js ''a'' @ [LS] @ js ''b'')]
   \<and> parseEnvContent (stringifyEnv [(js ''K'', js ''a'' @ [LS] @ js ''b'')]) = Inr []
   \<and> parseEnvContent (stringifyEnv [(js ''K'', js ''a'' @ [CR] @ js ''b'')]) = Inr []"
  by (simp add: stringifyEnv_def shouldQuoteValue_def object_defs char_class_defs parser_defs)

section \<open>Neither pass throws\<close>

subsection \<open>One line of the parser\<close>

lemma env_line_parts_None:
  assumes "env_line_parts l = None"
  shows "ENV_LINE_match (trim l) = None"
proof (cases "ENV_LINE_match (trim l)")
  case None
  then show ?thesis .
next
  case (Some m)
  then obtain key v where "m = [Some (trim l), Some key, Some v]"
    by (rule ENV_LINE_match_SomeD)
  with assms Some show ?thesis by (simp add: env_line_parts_def)
qed

lemma parse_step_cases:
  assumes "parse_step l st = Inr st'"
  obtains (continue) ck where "currentKey st = Some ck" "endsWith l BS"
      "st' = st\<lparr>currentValue := currentValue st @ butlast l @ [LF]\<rparr>"
  | (close) ck where "currentKey st = Some ck" "\<not> endsWith l BS"
      "st' = \<lparr>env = set_prop (env st) ck (processValue (currentValue st @ l)),
             currentKey = None, currentValue = []\<rparr>"
  | (skipped) "currentKey st = None" "env_line_parts l = None" "st' = st"
  | (opened) key v where "currentKey st = None" "env_line_parts l = Some (key, v)"
      "endsWith v BS" "st' = st\<lparr>currentKey := Some key, currentValue := butlast v\<rparr>"
  | (entry) key v where "currentKey st = None" "env_line_parts l = Some (key, v)"
      "\<not> endsWith v BS" "st' = st\<lparr>env := set_prop (env st) key (processValue v)\<rparr>"
proof (cases "currentKey st")
  case (Some ck)
  show thesis
  proof (cases "endsWith l BS")
    case True
    with assms Some have "st' = st\<lparr>currentValue := currentValue st @ butlast l @ [LF]\<rparr>"
      by (simp add: parse_step_def)
    with Some True show thesis by (rule continue)
  next
    case False
    with assms Some have "st' = \<lparr>env = set_prop (env st) ck (processValue (currentValue st @ l)),
             currentKey = None, currentValue = []\<rparr>"
      by (simp add: parse_step_def)
    with Some False show thesis by (rule close)
  qed
next
  case None
  show thesis
  proof (cases "env_line_parts l")
    case N: None
    then have "ENV_LINE_match (trim l) = None" by (rule env_line_parts_None)
    with assms None have "st' = st"
      by (simp add: parse_step_def Let_def split: if_splits)
    with None N show thesis by (rule skipped)
  next
    case (Some p)
    obtain key v where p: "p = (key, v)" by (cases p)
    from Some p obtain g2 where m: "ENV_LINE_match (trim l) = Some [Some (trim l), Some key, Some g2]"
      and v: "v = trim g2" and k: "list_all is_key_char_i key"
      and t: "trim l \<noteq> []" "\<not> COMMENT_test (trim l)"
      by (auto elim: env_line_parts_SomeD)
    from m have x: "EXPORT_match (trim l) = None" by (rule ENV_LINE_excludes_EXPORT)
    from k have tk: "trim key = key" by (rule trim_key_chars)
    from assms None m x t tk v have s:
      "st' = (if endsWith v BS then st\<lparr>currentKey := Some key, currentValue := butlast v\<rparr>
              else st\<lparr>env := set_prop (env st) key (processValue v)\<rparr>)"
      by (simp add: parse_step_def Let_def split: if_splits)
    show thesis
    proof (cases "endsWith v BS")
      case True
      with s have "st' = st\<lparr>currentKey := Some key, currentValue := butlast v\<rparr>" by simp
      with None Some [unfolded p] True show thesis by (rule opened)
    next
      case False
      with s have "st' = st\<lparr>env := set_prop (env st) key (processValue v)\<rparr>" by simp
      with None Some [unfolded p] False show thesis by (rule entry)
    qed
  qed
qed

subsection \<open>The keys of a parsed mapping\<close>

lemma define_own_keys:
  "map fst (define_own k v obj) = (if k \<in> set (map fst obj) then map fst obj else map fst obj @ [k])"
  by (induction obj) auto

lemma set_prop_keys:
  "map fst (set_prop obj k v) =
     (if k \<in> set (map fst obj) \<or> k = js ''__proto__'' then map fst obj else map fst obj @ [k])"
  by (simp add: set_prop_def define_own_keys)

lemma set_prop_key_set: "fst ` set (set_prop obj k v) \<subseteq> insert k (fst ` set obj)"
proof -
  have "set (map fst (set_prop obj k v)) \<subseteq> insert k (set (map fst obj))"
    unfolding set_prop_keys by auto
  then show ?thesis by (simp only: set_map)
qed

lemma set_prop_distinct:
  assumes "distinct (map fst obj)" and "js ''__proto__'' \<notin> fst ` set obj"
  shows "distinct (map fst (set_prop obj k v))" and "js ''__proto__'' \<notin> fst ` set (set_prop obj k v)"
proof -
  from assms(1) show "distinct (map fst (set_prop obj k v))"
    unfolding set_prop_keys by auto
  from assms(2) have "js ''__proto__'' \<notin> set (map fst (set_prop obj k v))"
    unfolding set_prop_keys by auto
  then show "js ''__proto__'' \<notin> fst ` set (set_prop obj k v)" by simp
qed

lemma parse_step_keys_in_play:
  assumes "parse_step l st = Inr st'"
  shows "keys_in_play st' \<subseteq> keys_in_play st \<union> {k. \<exists>v. env_line_parts l = Some (k, v)}"
  using assms
proof (cases rule: parse_step_cases)
  case (continue ck)
  then show ?thesis by (auto simp: keys_in_play_def)
next
  case (close ck)
  with set_prop_key_set [of "env st" ck] show ?thesis by (auto simp: keys_in_play_def)
next
  case skipped
  then show ?thesis by simp
next
  case (opened key v)
  then show ?thesis by (auto simp: keys_in_play_def)
next
  case (entry key v)
  with set_prop_key_set [of "env st" key] show ?thesis by (auto simp: keys_in_play_def)
qed

lemma parse_step_distinct:
  assumes "parse_step l st = Inr st'"
    and "distinct (map fst (env st))" and "js ''__proto__'' \<notin> fst ` set (env st)"
  shows "distinct (map fst (env st')) \<and> (js ''__proto__'') \<notin> fst ` set (env st')"
  using assms(1) set_prop_distinct [OF assms(2,3)] assms(2,3)
  by (cases rule: parse_step_cases) simp_all

lemma parse_loop_keys_in_play:
  assumes "parse_loop ls st = Inr st'"
  shows "keys_in_play st' \<subseteq> keys_in_play st \<union> {k. \<exists>l\<in>set ls. \<exists>v. env_line_parts l = Some (k, v)}"
  using assms
proof (induction ls arbitrary: st)
  case Nil
  then show ?case by simp
next
  case (Cons l ls)
  from Cons.prems obtain st1 where s: "parse_step l st = Inr st1"
    and r: "parse_loop ls st1 = Inr st'"
    by (auto simp: bindE_eq_Inr)
  from parse_step_keys_in_play [OF s] Cons.IH [OF r] show ?case by auto
qed

lemma parse_loop_distinct:
  assumes "parse_loop ls st = Inr st'"
    and "distinct (map fst (env st))" and "js ''__proto__'' \<notin> fst ` set (env st)"
  shows "distinct (map fst (env st')) \<and> (js ''__proto__'') \<notin> fst ` set (env st')"
  using assms
proof (induction ls arbitrary: st)
  case Nil
  then show ?case by simp
next
  case (Cons l ls)
  from Cons.prems(1) obtain st1 where s: "parse_step l st = Inr st1"
    and r: "parse_loop ls st1 = Inr st'"
    by (auto simp: bindE_eq_Inr)
  from parse_step_distinct [OF s Cons.prems(2,3)] Cons.IH [OF r] show ?case by simp
qed

lemma parseEnvContent_loop:
  assumes "parseEnvContent content = Inr m"
  obtains st where
    "parse_loop (split_lines content) \<lparr>env = [], currentKey = None, currentValue = []\<rparr> = Inr st"
    "m = (case currentKey st of
            Some ck \<Rightarrow> set_prop (env st) ck (processValue (currentValue st))
          | None \<Rightarrow> env st)"
  using assms by (auto simp: parseEnvContent_def bindE_eq_Inr split: option.splits)

text \<open>Every key of the result was read from a \<^verbatim>\<open>KEY=VALUE\<close> line of the input.\<close>

lemma parseEnvContent_key_origin:
  assumes "parseEnvContent content = Inr m" and "k \<in> fst ` set m"
  shows "\<exists>l\<in>set (split_lines content). \<exists>v. env_line_parts l = Some (k, v)"
proof -
  let ?init = "\<lparr>env = [], currentKey = None, currentValue = []\<rparr>"
  from assms(1) obtain st where l: "parse_loop (split_lines content) ?init = Inr st"
    and m: "m = (case currentKey st of
            Some ck \<Rightarrow> set_prop (env st) ck (processValue (currentValue st))
          | None \<Rightarrow> env st)"
    by (rule parseEnvContent_loop)
  have "fst ` set m \<subseteq> keys_in_play st"
  proof (cases "currentKey st")
    case None
    with m show ?thesis by (simp add: keys_in_play_def)
  next
    case (Some ck)
    with m set_prop_key_set [of "env st" ck] show ?thesis by (auto simp: keys_in_play_def)
  qed
  with assms(2) have "k \<in> keys_in_play st" by blast
  moreover have "keys_in_play ?init = {}" by (simp add: keys_in_play_def)
  ultimately have "k \<in> {k. \<exists>l\<in>set (split_lines content). \<exists>v. env_line_parts l = Some (k, v)}"
    using parse_loop_keys_in_play [OF l] by blast
  then show ?thesis by simp
qed

lemma ENV_LINE_key_testI:
  assumes "k \<noteq> []" "is_key_start_i (hd k)" "list_all is_key_char_i k"
  shows "ENV_LINE_key_test k"
  using assms by (cases k) simp_all

text \<open>
  Every mapping that the parser returns has distinct keys of the shape
  \<^verbatim>\<open>^[A-Za-z_][A-Za-z0-9_]*$\<close>, and never the key \<^verbatim>\<open>__proto__\<close>.
\<close>

lemma parseEnvContent_keys:
  assumes "parseEnvContent content = Inr m"
  shows "distinct (map fst m)"
    and "\<forall>p\<in>set m. ENV_LINE_key_test (fst p) \<and> fst p \<noteq> (js ''__proto__'')"
proof -
  let ?init = "\<lparr>env = [], currentKey = None, currentValue = []\<rparr>"
  from assms obtain st where l: "parse_loop (split_lines content) ?init = Inr st"
    and m: "m = (case currentKey st of
            Some ck \<Rightarrow> set_prop (env st) ck (processValue (currentValue st))
          | None \<Rightarrow> env st)"
    by (rule parseEnvContent_loop)
  from parse_loop_distinct [OF l]
  have d: "distinct (map fst (env st))" and n: "js ''__proto__'' \<notin> fst ` set (env st)"
    by simp_all
  have dm: "distinct (map fst m)" and pm: "js ''__proto__'' \<notin> fst ` set m"
    using m set_prop_distinct [OF d n] d n by (cases "currentKey st"; simp)+
  show "distinct (map fst m)" by (rule dm)
  show "\<forall>p\<in>set m. ENV_LINE_key_test (fst p) \<and> fst p \<noteq> (js ''__proto__'')"
  proof
    fix p assume p: "p \<in> set m"
    then have k: "fst p \<in> fst ` set m" by simp
    from parseEnvContent_key_origin [OF assms k] obtain l v where
      "env_line_parts l = Some (fst p, v)" by blast
    then have "fst p \<noteq> []" "is_key_start_i (hd (fst p))" "list_all is_key_char_i (fst p)"
      by (auto elim: env_line_parts_SomeD)
    then have "ENV_LINE_key_test (fst p)" by (rule ENV_LINE_key_testI)
    moreover have "fst p \<noteq> (js ''__proto__'')"
    proof
      assume "fst p = js ''__proto__''"
      with k have "js ''__proto__'' \<in> fst ` set m" by simp
      with pm show False ..
    qed
    ultimately show "ENV_LINE_key_test (fst p) \<and> fst p \<noteq> (js ''__proto__'')" ..
  qed
qed

subsection \<open>Malformed lines\<close>





section \<open>Comparing and merging objects\<close>

subsection \<open>Objects as maps\<close>

lemma map_of_define_own: "map_of (define_own k v obj) = (map_of obj)(k \<mapsto> v)"
  by (induction obj) (auto simp: fun_eq_iff)

lemma distinct_define_own:
  "distinct (map fst obj) \<Longrightarrow> distinct (map fst (define_own k v obj))"
  by (simp add: define_own_keys)

lemma set_Object_entries: "set (Object_entries obj) = set obj"
  by (auto simp: Object_entries_def)

subsection \<open>Changed keys\<close>

lemma set_Set_from_aux:
  "set (foldl (\<lambda>acc x. if x \<in> set acc then acc else acc @ [x]) a xs) = set a \<union> set xs"
  by (induction xs arbitrary: a) auto

lemma set_Set_from: "set (Set_from xs) = set xs"
  by (simp add: Set_from_def set_Set_from_aux)

lemma set_Object_keys: "set (Object_keys obj) = fst ` set obj"
  by (simp add: Object_keys_def set_Object_entries)

text \<open>Every key that only one of the two objects has is reported.\<close>

lemma getDifferentKeys_one_sided:
  assumes "k \<in> fst ` set env1" and "k \<notin> fst ` set env2"
  shows "k \<in> set (getDifferentKeys env1 env2)" and "k \<in> set (getDifferentKeys env2 env1)"
proof -
  from assms(1) obtain v where "map_of env1 k = Some v"
    by (metis map_of_eq_None_iff not_Some_eq)
  then have a: "get_prop env1 k = JString v" by (simp add: get_prop_def)
  from assms(2) have "map_of env2 k = None" by (simp add: map_of_eq_None_iff)
  then have b: "get_prop env2 k \<noteq> JString v" by (simp add: get_prop_def)
  from assms(1) a b show "k \<in> set (getDifferentKeys env1 env2)"
    by (simp add: getDifferentKeys_def set_Set_from set_Object_keys)
  from assms(1) a b show "k \<in> set (getDifferentKeys env2 env1)"
    by (simp add: getDifferentKeys_def set_Set_from set_Object_keys)
qed

text \<open>
  C1. The claim: \<^verbatim>\<open>getDifferentKeys\<close> returns exactly the keys present in both
  mappings whose values differ, never a key present in only one of them, and
  \<^verbatim>\<open>[Y]\<close> for \<^verbatim>\<open>A = {X:1, Y:2}\<close>, \<^verbatim>\<open>B = {Y:3, Z:4}\<close>. The doc comment of
  the function says the same. The code filters the union of both key sets with
  \<^verbatim>\<open>env1[key] !== env2[key]\<close>; for a key of one mapping only, one side is
  \<^verbatim>\<open>undefined\<close> and the test succeeds. On the claim's own input the result is
  \<^verbatim>\<open>[X, Y, Z]\<close>.
\<close>

theorem getDifferentKeys_reports_one_sided_keys:
  "getDifferentKeys [(js ''X'', js ''1''), (js ''Y'', js ''2'')] [(js ''Y'', js ''3''), (js ''Z'', js ''4'')]
     = [js ''X'', js ''Y'', js ''Z'']"
  by (simp add: getDifferentKeys_def Set_from_def object_defs char_class_defs)

subsection \<open>The preserve strategy\<close>

text \<open>Copying the entries of an object with distinct keys, in any order.\<close>

lemma copy_entries:
  assumes "\<forall>k v v'. (k, v) \<in> set es \<longrightarrow> (k, v') \<in> set es \<longrightarrow> v = v'"
  shows "map_of (foldl (\<lambda>r p. define_own (fst p) (snd p) r) acc es) k =
           (if k \<in> fst ` set es then Some (SOME v. (k, v) \<in> set es) else map_of acc k)"
    and "distinct (map fst acc) \<Longrightarrow>
           distinct (map fst (foldl (\<lambda>r p. define_own (fst p) (snd p) r) acc es))"
  using assms
proof (induction es arbitrary: acc)
  case Nil
  { case 1 show ?case by simp }
  { case 2 then show ?case by simp }
next
  case (Cons p es)
  obtain a b where p: "p = (a, b)" by (cases p)
  { case 1
    from 1 have f: "\<forall>k v v'. (k, v) \<in> set es \<longrightarrow> (k, v') \<in> set es \<longrightarrow> v = v'" by auto
    show ?case
    proof (cases "k \<in> fst ` set es")
      case True
      then have "k \<in> fst ` set (p # es)" by auto
      moreover from True obtain v where v: "(k, v) \<in> set es" by auto
      with f have "(SOME v. (k, v) \<in> set es) = v" by (auto intro: some_equality)
      moreover from v 1 have "(SOME v. (k, v) \<in> set (p # es)) = v"
        by (intro some_equality) auto
      ultimately show ?thesis using Cons.IH(1) [OF f] True by simp
    next
      case False
      show ?thesis
      proof (cases "k = a")
        case True
        with False p have "(SOME v. (k, v) \<in> set (p # es)) = b"
          by (intro some_equality) (auto simp: image_iff)
        with True False p Cons.IH(1) [OF f] show ?thesis
          by (simp add: map_of_define_own)
      next
        case ne: False
        with False p Cons.IH(1) [OF f] show ?thesis
          by (simp add: map_of_define_own)
      qed
    qed }
  { case 2
    from 2(2) have f: "\<forall>k v v'. (k, v) \<in> set es \<longrightarrow> (k, v') \<in> set es \<longrightarrow> v = v'" by auto
    from 2(1) have "distinct (map fst (define_own (fst p) (snd p) acc))"
      by (rule distinct_define_own)
    from Cons.IH(2) [OF this f] show ?case by simp }
qed

lemma distinct_keys_functional:
  assumes "distinct (map fst obj)"
  shows "\<forall>k v v'. (k, v) \<in> set obj \<longrightarrow> (k, v') \<in> set obj \<longrightarrow> v = v'"
  using assms by (auto dest: eq_key_imp_eq_value)

lemma copy_object:
  assumes "distinct (map fst obj)"
  shows "map_of (foldl (\<lambda>r p. define_own (fst p) (snd p) r) acc (Object_entries obj)) =
           map_of acc ++ map_of obj"
proof
  fix k
  let ?es = "Object_entries obj"
  from assms have f: "\<forall>k v v'. (k, v) \<in> set ?es \<longrightarrow> (k, v') \<in> set ?es \<longrightarrow> v = v'"
    unfolding set_Object_entries by (rule distinct_keys_functional)
  show "map_of (foldl (\<lambda>r p. define_own (fst p) (snd p) r) acc ?es) k = (map_of acc ++ map_of obj) k"
  proof (cases "map_of obj k")
    case None
    then have "k \<notin> fst ` set obj" by (simp add: map_of_eq_None_iff)
    with None show ?thesis
      by (simp add: copy_entries(1) [OF f] set_Object_entries map_add_def)
  next
    case (Some v)
    then have i: "(k, v) \<in> set obj" by (rule map_of_SomeD)
    then have "k \<in> fst ` set obj" by force
    moreover from i assms have "(SOME v. (k, v) \<in> set obj) = v"
      by (intro some_equality) (auto dest: eq_key_imp_eq_value)
    ultimately show ?thesis using Some
      by (simp add: copy_entries(1) [OF f] set_Object_entries map_add_def)
  qed
qed

lemma distinct_copy_object:
  assumes "distinct (map fst obj)" and "distinct (map fst acc)"
  shows "distinct (map fst (foldl (\<lambda>r p. define_own (fst p) (snd p) r) acc (Object_entries obj)))"
proof -
  from assms(1) have "\<forall>k v v'. (k, v) \<in> set (Object_entries obj) \<longrightarrow>
      (k, v') \<in> set (Object_entries obj) \<longrightarrow> v = v'"
    unfolding set_Object_entries by (rule distinct_keys_functional)
  with assms(2) show ?thesis by (intro copy_entries(2))
qed

lemma map_of_mergeEnv2:
  assumes "distinct (map fst a)" and "distinct (map fst b)"
  shows "map_of (mergeEnv [a, b]) = map_of a ++ map_of b"
proof -
  let ?cp = "\<lambda>acc obj. foldl (\<lambda>r p. define_own (fst p) (snd p) r) acc (Object_entries obj)"
  have e: "?cp [] [] = []" by (simp add: Object_entries_def)
  have m: "mergeEnv [a, b] = ?cp (?cp [] (?cp [] a)) b"
    by (simp add: mergeEnv_def spread_def e)
  from assms(1) have d1: "distinct (map fst (?cp [] a))" by (intro distinct_copy_object) simp_all
  from assms(1) have m1: "map_of (?cp [] a) = map_of a" by (simp add: copy_object)
  from d1 have m2: "map_of (?cp [] (?cp [] a)) = map_of a" by (simp add: copy_object m1)
  from assms(2) show ?thesis unfolding m by (simp add: copy_object m2)
qed

lemma map_of_set_prop:
  assumes "key \<noteq> (js ''__proto__'')"
  shows "map_of (set_prop obj key v) = (map_of obj)(key \<mapsto> v)"
  using assms by (simp add: set_prop_def map_of_define_own)

lemma preserve_fold:
  assumes "\<forall>k\<in>set ks. k \<noteq> (js ''__proto__'')"
  shows "map_of (foldl (\<lambda>mergedObject key.
              case get_prop source key of
                JString v \<Rightarrow> set_prop mergedObject key v
              | JInherited n \<Rightarrow> mergedObject
              | JUndefined \<Rightarrow> mergedObject) acc ks) k =
         (if k \<in> set ks \<and> k \<in> set (map fst source) then map_of source k else map_of acc k)"
  using assms
proof (induction ks arbitrary: acc)
  case Nil
  show ?case by simp
next
  case (Cons a ks)
  then have a: "a \<noteq> (js ''__proto__'')" and r: "\<forall>k\<in>set ks. k \<noteq> (js ''__proto__'')" by simp_all
  show ?case
  proof (cases "map_of source a")
    case None
    then have "a \<notin> set (map fst source)" by (simp add: map_of_eq_None_iff)
    moreover from None have "get_prop source a = JUndefined \<or> get_prop source a = JInherited a"
      by (simp add: get_prop_def)
    ultimately show ?thesis using Cons.IH [OF r] by auto
  next
    case (Some v)
    then have "a \<in> set (map fst source)" by (metis map_of_eq_None_iff option.distinct(1) set_map)
    moreover from Some have "get_prop source a = JString v" by (simp add: get_prop_def)
    ultimately show ?thesis using Cons.IH [OF r] a Some
      by (auto simp: map_of_set_prop)
  qed
qed

text \<open>
  Apart from the inherited names, the preserve branch and \<^verbatim>\<open>mergeEnv(source, target)\<close>
  define the same mapping.
\<close>

lemma preserve_equals_merge_without_inherited_names:
  assumes s: "distinct (map fst source)" and t: "distinct (map fst target)"
    and h: "\<forall>k\<in>set (map fst source).
              k \<in> set (map fst target) \<or> k \<notin> set Object_prototype_names"
  shows "map_of (sync_preserve source target) = map_of (mergeEnv [source, target])"
proof
  fix k
  let ?missing = "getMissingKeys target source"
  have e: "foldl (\<lambda>r p. define_own (fst p) (snd p) r) [] (Object_entries []) = []"
    by (simp add: Object_entries_def)
  from t have c: "map_of (spread [target]) = map_of target"
    by (simp add: spread_def copy_object)
  have p: "js ''__proto__'' \<in> set Object_prototype_names"
    by (simp add: Object_prototype_names_def)
  have mk: "set ?missing = {k \<in> set (map fst source). \<not> has_property k target}"
    by (auto simp: getMissingKeys_def Object_keys_def set_Object_entries)
  with p have np: "\<forall>k\<in>set ?missing. k \<noteq> (js ''__proto__'')"
    by (auto simp: has_property_def)
  have l: "map_of (sync_preserve source target) k =
      (if k \<in> set ?missing \<and> k \<in> set (map fst source) then map_of source k else map_of target k)"
    unfolding sync_preserve_def by (simp only: preserve_fold [OF np] c)
  have r: "map_of (mergeEnv [source, target]) k = (map_of source ++ map_of target) k"
    using s t by (simp add: map_of_mergeEnv2)
  show "map_of (sync_preserve source target) k = map_of (mergeEnv [source, target]) k"
  proof (cases "k \<in> set (map fst target)")
    case True
    then have "k \<notin> set ?missing" by (simp add: mk has_property_def)
    moreover from True obtain v where "map_of target k = Some v"
      by (metis map_of_eq_None_iff not_Some_eq set_map)
    ultimately show ?thesis by (simp add: l r map_add_def)
  next
    case False
    then have n: "map_of target k = None" by (simp add: map_of_eq_None_iff)
    show ?thesis
    proof (cases "k \<in> set (map fst source)")
      case True
      with h False have "k \<notin> set Object_prototype_names" by blast
      with True False have "k \<in> set ?missing" by (simp add: mk has_property_def)
      with True n show ?thesis by (simp add: l r map_add_def)
    next
      case ns: False
      then have "map_of source k = None" by (simp add: map_of_eq_None_iff)
      with n ns show ?thesis by (simp add: l r map_add_def)
    qed
  qed
qed


text \<open>
  C10. The claim: the \<^verbatim>\<open>preserve\<close> branch yields the same key-to-value mapping
  as \<^verbatim>\<open>mergeEnv(source, target)\<close>. The branch finds the keys to add with
  \<^verbatim>\<open>!(key in target)\<close>, which is false for every name inherited from
  \<^verbatim>\<open>Object.prototype\<close>: a source key such as \<^verbatim>\<open>constructor\<close> that the
  target lacks is not added, while the spread in \<^verbatim>\<open>mergeEnv\<close> copies it.
\<close>

theorem preserve_drops_inherited_name:
  "parseEnvContent (js ''constructor=x'') = Inr [(js ''constructor'', js ''x'')]
   \<and> parseEnvContent [] = Inr []
   \<and> sync_preserve [(js ''constructor'', js ''x'')] [] = []
   \<and> mergeEnv [[(js ''constructor'', js ''x'')], []] = [(js ''constructor'', js ''x'')]"
  by (simp add: sync_preserve_def mergeEnv_def getMissingKeys_def object_defs char_class_defs
       parser_defs)

end
